theory Spec2Isabelle
  imports Main "HOL-Library.Extended_Nat"
begin

section \<open>Python values and errors\<close>

text \<open>
  The exceptions the modelled functions can raise. A function that may raise returns
  \<open>py_error + 'a\<close>, with \<open>Inl\<close> for the exception. A \<open>ValueError\<close> carries the start of
  its message, which tells the places that raise it apart.
\<close>

datatype py_error =
  ValueError string | KeyError | IndexError | AssertionError | AttributeError |
  UnboundLocalError | ZeroDivisionError

section \<open>The mutation enumerator (\<open>selene/predict/model_predict.py\<close>)\<close>

text \<open>
  Modelled from the spec: \<open>Genome.BASES_ARR\<close> and \<open>Genome.BASE_TO_INDEX\<close> are class
  constants of \<open>selene.sequences.Genome\<close>, which is not among the source files; the
  DNA alphabet of four bases in the order A, C, G, T is taken for them. They are only
  read when the caller passes no alphabet (or an empty one).
\<close>

definition Genome_BASES_ARR :: "string list" where
  "Genome_BASES_ARR = [''A'', ''C'', ''G'', ''T'']"

definition Genome_BASE_TO_INDEX :: "(string \<times> int) list" where
  "Genome_BASE_TO_INDEX = [(''A'', 0), (''C'', 1), (''G'', 2), (''T'', 3)]"

text \<open>
  \<open>itertools.combinations(iterable, r)\<close>: the \<open>r\<close>-element subsequences of the input, in
  lexicographic order of their positions.
\<close>

fun itertools_combinations :: "'a list \<Rightarrow> nat \<Rightarrow> 'a list list" where
  "itertools_combinations xs 0 = [[]]"
| "itertools_combinations [] (Suc r) = []"
| "itertools_combinations (x # xs) (Suc r) =
     map ((#) x) (itertools_combinations xs r) @ itertools_combinations xs (Suc r)"

text \<open>
  \<open>itertools.product(*iterables)\<close>: the Cartesian product, the rightmost component
  advancing fastest.
\<close>

fun itertools_product :: "'a list list \<Rightarrow> 'a list list" where
  "itertools_product [] = [[]]"
| "itertools_product (xs # xss) =
     concat (map (\<lambda>x. map ((#) x) (itertools_product xss)) xs)"

text \<open>
  Lines 51-58: for every position of the sequence, the bases of the alphabet that differ
  from the reference base there. A Python string iterates over one-character strings, so
  the reference character \<open>ref\<close> is compared as the string \<open>[ref]\<close>.
\<close>

definition sequence_alts :: "string \<Rightarrow> string list \<Rightarrow> string list list" where
  "sequence_alts sequence bases_arr =
     map (\<lambda>ref. filter (\<lambda>base. base \<noteq> [ref]) bases_arr) sequence"

text \<open>
  Lines 60-68: one mutation specification per combination of positions and per choice of
  one alternative base at each chosen position.
\<close>

definition all_mutated_sequences ::
  "string \<Rightarrow> nat \<Rightarrow> string list \<Rightarrow> (int \<times> string) list list" where
  "all_mutated_sequences sequence r bases_arr =
     concat (map
       (\<lambda>indices.
          map (\<lambda>mutations. zip (map int indices) mutations)
            (itertools_product (map (\<lambda>i. sequence_alts sequence bases_arr ! i) indices)))
       (itertools_combinations [0..<length sequence] r))"

text \<open>
  \<open>in_silico_mutagenesis_sequences(sequence, mutate_n_bases=1, bases_arr=None)\<close>.
  \<open>not bases_arr\<close> holds for \<open>None\<close> and for the empty list.
  \<open>itertools.combinations\<close> raises \<open>ValueError\<close> for a negative \<open>r\<close>.
\<close>

definition in_silico_mutagenesis_sequences ::
  "string \<Rightarrow> int \<Rightarrow> string list option \<Rightarrow> py_error + (int \<times> string) list list" where
  "in_silico_mutagenesis_sequences sequence mutate_n_bases bases_arr =
     (let bases_arr' =
            (case bases_arr of
               None \<Rightarrow> Genome_BASES_ARR
             | Some bs \<Rightarrow> if bs = [] then Genome_BASES_ARR else bs)
      in if mutate_n_bases < 0 then Inl (ValueError ''r must be non-negative'')
         else Inr (all_mutated_sequences sequence (nat mutate_n_bases) bases_arr'))"

text \<open>
  \<open>AnalyzeSequences.in_silico_mutagenesis\<close>, line 314: the list of mutations that the
  method hands to \<open>in_silico_mutagenesis_predict\<close> for scoring. The call passes the
  literal \<open>mutate_n_bases=1\<close> and the default alphabet, whatever the method's own
  \<open>mutate_n_bases\<close> argument is.
\<close>

definition in_silico_mutagenesis_mutated_sequences ::
  "string \<Rightarrow> int \<Rightarrow> py_error + (int \<times> string) list list" where
  "in_silico_mutagenesis_mutated_sequences input_sequence mutate_n_bases =
     in_silico_mutagenesis_sequences input_sequence 1 None"

text \<open>
  The order of the enumeration, to state it: \<open>lex_less\<close> is the strict lexicographic
  order of two lists, \<open>base_index\<close> the place of a base in the alphabet, and one
  specification comes before another when its positions are lexicographically smaller
  or, the positions being the same, its replacement bases are lexicographically smaller
  by their places in the alphabet.
\<close>

fun lex_less :: "'a::linorder list \<Rightarrow> 'a list \<Rightarrow> bool" where
  "lex_less [] [] = False"
| "lex_less [] (y # ys) = True"
| "lex_less (x # xs) [] = False"
| "lex_less (x # xs) (y # ys) = (x < y \<or> (x = y \<and> lex_less xs ys))"

fun base_index :: "string list \<Rightarrow> string \<Rightarrow> nat" where
  "base_index [] b = 0"
| "base_index (x # xs) b = (if x = b then 0 else Suc (base_index xs b))"

definition spec_before ::
  "string list \<Rightarrow> (int \<times> string) list \<Rightarrow> (int \<times> string) list \<Rightarrow> bool" where
  "spec_before bases_arr s t =
     (lex_less (map fst s) (map fst t) \<or>
      (map fst s = map fst t \<and>
       lex_less (map (\<lambda>(i, b). base_index bases_arr b) s)
                (map (\<lambda>(i, b). base_index bases_arr b) t)))"

section \<open>The sequence mutator (\<open>mutate_sequence\<close>)\<close>

text \<open>
  A numpy array of two dimensions is a list of rows. Arrays live in a store and are
  referred to by address (their index in the store), so that the difference between
  writing to an array and writing to a copy of it is visible.
\<close>

type_synonym 'a ndarray = "'a list list"
type_synonym 'a store = "'a ndarray list"

text \<open>\<open>np.copy(a)\<close>: a new array with the contents of \<open>a\<close>, at a fresh address.\<close>

definition np_copy :: "'a store \<Rightarrow> nat \<Rightarrow> 'a store \<times> nat" where
  "np_copy s a = (s @ [s ! a], length s)"

text \<open>
  numpy index normalisation along an axis of length \<open>n\<close>: indices \<open>-n \<le> i < n\<close> are valid,
  negative ones count from the end; anything else raises \<open>IndexError\<close>.
\<close>

definition np_index :: "nat \<Rightarrow> int \<Rightarrow> nat option" where
  "np_index n i =
     (if 0 \<le> i \<and> i < int n then Some (nat i)
      else if - int n \<le> i \<and> i < 0 then Some (nat (i + int n))
      else None)"

text \<open>\<open>m[position, :] = v\<close>\<close>

definition assign_row :: "'a ndarray \<Rightarrow> int \<Rightarrow> 'a \<Rightarrow> py_error + 'a ndarray" where
  "assign_row m position v =
     (case np_index (length m) position of
        None \<Rightarrow> Inl IndexError
      | Some r \<Rightarrow> Inr (m[r := replicate (length (m ! r)) v]))"

text \<open>\<open>m[position, column] = v\<close>\<close>

definition assign_cell :: "'a ndarray \<Rightarrow> int \<Rightarrow> int \<Rightarrow> 'a \<Rightarrow> py_error + 'a ndarray" where
  "assign_cell m position column v =
     (case np_index (length m) position of
        None \<Rightarrow> Inl IndexError
      | Some r \<Rightarrow>
          (case np_index (length (m ! r)) column of
             None \<Rightarrow> Inl IndexError
           | Some c \<Rightarrow> Inr (m[r := (m ! r)[c := v]])))"

text \<open>
  Lines 106-109, the loop over the (position, base) pairs, writing to the array at
  address \<open>a\<close>. The store is returned also when an exception ends the loop. A dictionary
  is an association list with pairwise different keys.
\<close>

fun mutate_loop ::
  "'a::{zero,one} store \<Rightarrow> nat \<Rightarrow> (int \<times> string) list \<Rightarrow> (string \<times> int) list
     \<Rightarrow> 'a store \<times> (py_error + unit)" where
  "mutate_loop s a [] base_to_index = (s, Inr ())"
| "mutate_loop s a ((position, alt) # rest) base_to_index =
     (case map_of base_to_index alt of
        None \<Rightarrow> (s, Inl KeyError)
      | Some replace_base \<Rightarrow>
          (case assign_row (s ! a) position 0 of
             Inl e \<Rightarrow> (s, Inl e)
           | Inr m0 \<Rightarrow>
               (case assign_cell m0 position replace_base 1 of
                  Inl e \<Rightarrow> (s[a := m0], Inl e)
                | Inr m1 \<Rightarrow> mutate_loop (s[a := m1]) a rest base_to_index)))"

text \<open>Lines 103-104: \<open>not base_to_index\<close> holds for \<open>None\<close> and for the empty dictionary.\<close>

definition resolve_base_to_index :: "(string \<times> int) list option \<Rightarrow> (string \<times> int) list" where
  "resolve_base_to_index base_to_index =
     (case base_to_index of
        None \<Rightarrow> Genome_BASE_TO_INDEX
      | Some d \<Rightarrow> if d = [] then Genome_BASE_TO_INDEX else d)"

text \<open>
  \<open>mutate_sequence(encoded_sequence, mutation_information, base_to_index=None)\<close>: the
  store after the call, and the address of the returned array or the exception.
\<close>

definition mutate_sequence ::
  "'a::{zero,one} store \<Rightarrow> nat \<Rightarrow> (int \<times> string) list \<Rightarrow> (string \<times> int) list option
     \<Rightarrow> 'a store \<times> (py_error + nat)" where
  "mutate_sequence s encoded_sequence mutation_information base_to_index =
     (let d = resolve_base_to_index base_to_index;
          (s1, mutated_seq) = np_copy s encoded_sequence;
          (s2, r) = mutate_loop s1 mutated_seq mutation_information d
      in (s2, case r of Inl e \<Rightarrow> Inl e | Inr _ \<Rightarrow> Inr mutated_seq))"

text \<open>A row is one-hot when exactly one entry is 1 and all the others are 0.\<close>

definition one_hot :: "'a::zero_neq_one list \<Rightarrow> bool" where
  "one_hot row =
     (length (filter (\<lambda>x. x = 1) row) = 1 \<and>
      length (filter (\<lambda>x. x = 0) row) = length row - 1)"

section \<open>The predictions handler (\<open>write_predictions_handler.py\<close>)\<close>

text \<open>
  An output file: the lines written so far and whether the handle has been closed. A data
  line keeps the identifier columns and the predicted values of one row apart; how a
  number is printed is not modelled.
\<close>

datatype 'p line = Header "string list" | Row "string list" "'p list"

record 'p file_handle =
  content :: "'p line list"
  closed :: bool

text \<open>
  The fields of a \<open>WritePredictionsHandler\<close>. \<open>results\<close> and \<open>samples\<close> hold one entry per
  batch handed to \<open>handle_batch_predictions\<close>: a batch of predictions is a list of rows,
  a batch of identifiers a list of identifier tuples. The constructor of the source does
  not assign \<open>self._column_names\<close> (it only has a local \<open>column_names\<close>), so the
  attribute is optional here: \<open>None\<close> when no base class provides it. \<open>NA_lines\<close> are the
  lines of the sibling \<open>.NA\<close> file.
\<close>

record 'p handler =
  needs_base_pred :: bool
  results :: "'p list list list"
  samples :: "string list list list"
  NA_samples :: "string list list"
  features :: "string list"
  nonfeature_columns :: "string list"
  column_names :: "string list option"
  output_path :: string
  output_handle :: "'p file_handle"
  NA_lines :: "'p line list"

text \<open>
  The constructor, lines 30-53: empty buffers, the output file opened and its header line
  written. (That opening the file can fail belongs to the file system and is not
  modelled.)
\<close>

definition WritePredictionsHandler :: "string list \<Rightarrow> string list \<Rightarrow> string \<Rightarrow> 'p handler" where
  "WritePredictionsHandler fs cols path =
     \<lparr> needs_base_pred = False, results = [], samples = [], NA_samples = [],
       features = fs, nonfeature_columns = cols, column_names = None,
       output_path = path,
       output_handle = \<lparr> content = [Header (cols @ fs)], closed = False \<rparr>,
       NA_lines = [] \<rparr>"

text \<open>
  Modelled from the spec: the module-level helper \<open>write_to_file(data, info_cols,
  output_handle, close=False)\<close> of \<open>predict_handlers/handler.py\<close>, which is not among the
  source files. Section 4.3: it writes the buffered rows, identifier columns first and
  then one column per feature, and closes the output resource if the flag is set. Writing
  a row to a closed Python file raises \<open>ValueError\<close>.
\<close>

definition handler_write_to_file ::
  "'p list list \<Rightarrow> string list list \<Rightarrow> 'p file_handle \<Rightarrow> bool \<Rightarrow> py_error + 'p file_handle" where
  "handler_write_to_file data info_cols f close =
     (let rows = map (\<lambda>(info, preds). Row info preds) (zip info_cols data)
      in if rows \<noteq> [] \<and> closed f then Inl (ValueError ''I/O operation on closed file'')
         else Inr (f\<lparr> content := content f @ rows, closed := (closed f \<or> close) \<rparr>))"

text \<open>
  Modelled from the spec: the helper \<open>write_NAs_to_file(info_cols, column_names,
  output_path)\<close> of the same module: the identifier columns of the unscored entries go to
  the \<open>.NA\<close> file, with no feature values.
\<close>

definition write_NAs_to_file :: "string list list \<Rightarrow> string list \<Rightarrow> 'p line list" where
  "write_NAs_to_file info_cols cols = Header cols # map (\<lambda>info. Row info []) info_cols"

text \<open>
  \<open>WritePredictionsHandler.write_to_file(self, close=False)\<close>, lines 101-124.
  \<open>np.vstack\<close> of the buffered batches is their concatenation.
\<close>

definition write_to_file :: "'p handler \<Rightarrow> bool \<Rightarrow> py_error + 'p handler" where
  "write_to_file h close =
     (case (if NA_samples h \<noteq> []
            then (case column_names h of
                    None \<Rightarrow> Inl AttributeError
                  | Some cols \<Rightarrow>
                      Inr (h\<lparr> NA_lines := write_NAs_to_file (NA_samples h) cols,
                              NA_samples := [] \<rparr>))
            else Inr h) of
        Inl e \<Rightarrow> Inl e
      | Inr h1 \<Rightarrow>
          if results h1 = []
          then Inr (h1\<lparr> output_handle := (output_handle h1)\<lparr> closed := True \<rparr> \<rparr>)
          else (case handler_write_to_file (concat (results h1)) (concat (samples h1))
                       (output_handle h1) close of
                  Inl e \<Rightarrow> Inl e
                | Inr f \<Rightarrow> Inr (h1\<lparr> output_handle := f, results := [], samples := [] \<rparr>)))"

text \<open>
  \<open>handle_batch_predictions(self, batch_predictions, batch_ids)\<close>, lines 96-99.
  \<open>len(self._results)\<close> is the number of buffered batches.
\<close>

definition handle_batch_predictions ::
  "'p handler \<Rightarrow> 'p list list \<Rightarrow> string list list \<Rightarrow> py_error + 'p handler" where
  "handle_batch_predictions h batch_predictions batch_ids =
     (let h1 = h\<lparr> results := results h @ [batch_predictions],
                   samples := samples h @ [batch_ids] \<rparr>
      in if length (results h1) > 200000 then write_to_file h1 False else Inr h1)"

text \<open>The number of rows in the buffer: the sum of the sizes of the buffered batches.\<close>

definition buffered_rows :: "'p handler \<Rightarrow> nat" where
  "buffered_rows h = length (concat (results h))"

text \<open>Two handlers in use: one with a single buffered batch, one with 200,000 buffered
  (empty) batches.\<close>

definition example_handler :: "int handler" where
  "example_handler =
     (WritePredictionsHandler [''f1''] [''pos'', ''ref'', ''alt''] ''ism_preds.txt'')
       \<lparr> results := [[[1]]], samples := [[[''0'', ''A'', ''C'']]] \<rparr>"

definition full_handler :: "int handler" where
  "full_handler =
     (WritePredictionsHandler [''f1''] [''pos'', ''ref'', ''alt''] ''ism_preds.txt'')
       \<lparr> results := replicate 200000 [], samples := replicate 200000 [] \<rparr>"

section \<open>Reading the variants (\<open>read_vcf_file\<close>)\<close>

subsection \<open>Python string operations\<close>

text \<open>\<open>needle in haystack\<close> for two strings: \<open>needle\<close> occurs as a contiguous part.\<close>

fun starts_with :: "string \<Rightarrow> string \<Rightarrow> bool" where
  "starts_with [] s = True"
| "starts_with (c # cs) [] = False"
| "starts_with (c # cs) (d # ds) = (c = d \<and> starts_with cs ds)"

fun str_contains :: "string \<Rightarrow> string \<Rightarrow> bool" where
  "str_contains needle [] = (needle = [])"
| "str_contains needle (d # ds) = (starts_with needle (d # ds) \<or> str_contains needle ds)"

text \<open>
  The white space that \<open>str.strip()\<close> removes, within the one-byte characters: tab, line
  feed, vertical tab, form feed, carriage return, the separators 0x1C to 0x1F and the
  space.
\<close>

definition is_space :: "char \<Rightarrow> bool" where
  "is_space c = (of_char c \<in> set [9, 10, 11, 12, 13, 28, 29, 30, 31, 32 :: nat])"

definition strip :: "string \<Rightarrow> string" where
  "strip s = rev (dropWhile is_space (rev (dropWhile is_space s)))"

text \<open>\<open>s.split(sep)\<close> for a one-character separator: never the empty list.\<close>

fun split :: "char \<Rightarrow> string \<Rightarrow> string list" where
  "split sep [] = [[]]"
| "split sep (c # cs) =
     (let ws = split sep cs
      in if c = sep then [] # ws else (c # hd ws) # tl ws)"

definition TAB :: char where
  "TAB = char_of (9 :: nat)"

definition NL :: char where
  "NL = char_of (10 :: nat)"

text \<open>
  \<open>int(s)\<close> for a string: white space around, an optional sign, then decimal digits, where
  single underscores may stand between digits. \<open>None\<close> is the \<open>ValueError\<close> of an invalid
  literal.
\<close>

definition is_digit :: "char \<Rightarrow> bool" where
  "is_digit c = (c \<in> set ''0123456789'')"

definition digits_value :: "string \<Rightarrow> int" where
  "digits_value ds = foldl (\<lambda>acc c. acc * 10 + (int (of_char c) - 48)) 0 ds"

definition py_int :: "string \<Rightarrow> int option" where
  "py_int s =
     (let t = strip s;
          (sgn, body) =
            (case t of
               [] \<Rightarrow> (1, [])
             | c # r \<Rightarrow>
                 if c = CHR ''-'' then (- 1, r)
                 else if c = CHR ''+'' then (1, r)
                 else (1, t));
          groups = split (CHR ''_'') body
      in if list_all (\<lambda>g. g \<noteq> [] \<and> list_all is_digit g) groups
         then Some (sgn * digits_value (concat groups))
         else None)"

subsection \<open>The function\<close>

definition VCF_REQUIRED_COLS :: "string list" where
  "VCF_REQUIRED_COLS = [''#CHROM'', ''POS'', ''ID'', ''REF'', ''ALT'']"

type_synonym variant = "string \<times> int \<times> string \<times> string \<times> string"

text \<open>
  Lines 151-161, the first loop, over \<open>enumerate(lines)\<close> from the line with number
  \<open>index\<close> on. The result is the value that \<open>index\<close> has when the loop ends: the number of
  the line at which it breaks, or of the last line when it runs to the end. The \<open>break\<close>
  at the header line leaves \<open>index\<close> at the header line itself.
\<close>

fun header_loop :: "string list \<Rightarrow> nat \<Rightarrow> py_error + nat" where
  "header_loop [] index = Inr index"
| "header_loop (line # rest) index =
     (if CHR ''#'' \<notin> set line then Inr index
      else if str_contains ''#CHROM'' line then
        (let cols = split TAB (strip line)
         in if take 5 cols \<noteq> VCF_REQUIRED_COLS
            then Inl (ValueError ''First 5 columns in file'')
            else Inr index)
      else if rest = [] then Inr index
      else header_loop rest (Suc index))"

text \<open>Lines 163-172, the second loop, over \<open>lines[index:]\<close>.\<close>

fun rows_loop :: "string list \<Rightarrow> variant list \<Rightarrow> py_error + variant list" where
  "rows_loop [] variants = Inr variants"
| "rows_loop (line # rest) variants =
     (let cols = split TAB (strip line)
      in if length cols < 5 then rows_loop rest variants
         else (case py_int (cols ! 1) of
                 None \<Rightarrow> Inl (ValueError ''invalid literal for int()'')
               | Some pos \<Rightarrow>
                   rows_loop rest
                     (variants @ [(cols ! 0, pos, cols ! 2, cols ! 3, cols ! 4)])))"

text \<open>
  \<open>read_vcf_file\<close>, applied to the lines that \<open>readlines()\<close> returns (each with its line
  end). For a file with no line the first loop never binds \<open>index\<close>, and \<open>lines[index:]\<close>
  raises \<open>UnboundLocalError\<close>.
\<close>

definition read_vcf_file :: "string list \<Rightarrow> py_error + variant list" where
  "read_vcf_file lines =
     (if lines = [] then Inl UnboundLocalError
      else (case header_loop lines 0 of
              Inl e \<Rightarrow> Inl e
            | Inr index \<Rightarrow> rows_loop (drop index lines) []))"

text \<open>A file with the required header line and one variant.\<close>

definition example_vcf :: "string list" where
  "example_vcf =
     [[CHR ''#'', CHR ''C'', CHR ''H'', CHR ''R'', CHR ''O'', CHR ''M'', TAB,
       CHR ''P'', CHR ''O'', CHR ''S'', TAB, CHR ''I'', CHR ''D'', TAB,
       CHR ''R'', CHR ''E'', CHR ''F'', TAB, CHR ''A'', CHR ''L'', CHR ''T'', NL],
      [CHR ''c'', CHR ''h'', CHR ''r'', CHR ''1'', TAB, CHR ''1'', CHR ''0'', CHR ''0'', TAB,
       CHR ''r'', CHR ''s'', CHR ''1'', TAB, CHR ''A'', TAB, CHR ''T'', NL]]"

text \<open>A line of a tab-delimited file, from its columns.\<close>

fun tsv_line :: "string list \<Rightarrow> string" where
  "tsv_line [] = [NL]"
| "tsv_line [c] = c @ [NL]"
| "tsv_line (c # cs) = c @ TAB # tsv_line cs"

section \<open>Variant effect prediction (\<open>AnalyzeSequences\<close>)\<close>

text \<open>
  The sequence provider. \<open>selene.sequences.Genome\<close> is not among the source files, so its
  three methods that the engine calls are parameters; \<open>'e\<close> is the type of an encoding.
\<close>

record 'e genome =
  sequence_in_bounds :: "string \<Rightarrow> int \<Rightarrow> int \<Rightarrow> bool"
  get_sequence_from_coords :: "string \<Rightarrow> int \<Rightarrow> int \<Rightarrow> string"
  sequence_to_encoding :: "string \<Rightarrow> 'e"

text \<open>
  A provider over named chromosomes, for the examples: a range is in bounds when it lies
  within the chromosome, an in-bounds range gives its bases, any other range the empty
  string; the encoding is the sequence itself.
\<close>

definition chromosomes_genome :: "(string \<times> string) list \<Rightarrow> string genome" where
  "chromosomes_genome chroms =
     \<lparr> sequence_in_bounds =
         (\<lambda>chrom start end'.
            case map_of chroms chrom of
              None \<Rightarrow> False
            | Some s \<Rightarrow> 0 \<le> start \<and> start \<le> end' \<and> end' \<le> int (length s)),
       get_sequence_from_coords =
         (\<lambda>chrom start end'.
            case map_of chroms chrom of
              None \<Rightarrow> []
            | Some s \<Rightarrow>
                if 0 \<le> start \<and> start \<le> end' \<and> end' \<le> int (length s)
                then take (nat (end' - start)) (drop (nat start) s)
                else []),
       sequence_to_encoding = (\<lambda>s. s) \<rparr>"

text \<open>
  The fields of \<open>AnalyzeSequences\<close> that the variant loop reads, and the constructor's
  computation of the radii (lines 189-192).
\<close>

record analyze_sequences =
  sequence_length :: nat
  start_radius :: nat
  end_radius :: nat
  batch_size :: nat

definition AnalyzeSequences :: "nat \<Rightarrow> nat \<Rightarrow> analyze_sequences" where
  "AnalyzeSequences len bsize =
     \<lparr> sequence_length = len,
       start_radius = len div 2,
       end_radius = (if len mod 2 \<noteq> 0 then len div 2 + 1 else len div 2),
       batch_size = bsize \<rparr>"

text \<open>
  Modelled from the spec: the handlers of variant-effect mode (\<open>DiffScoreHandler\<close>,
  \<open>LogitScoreHandler\<close>, \<open>WriteRefAltHandler\<close>) and the base class's \<open>handle_NA\<close> are
  not among the source files. Section 4.3: a handled batch contributes one row per
  identifier to the main output, \<open>handle_missing\<close> routes an identifier to the side NA
  output. A reporter is what it has been given: the identifiers of its main rows and
  those of its NA rows.
\<close>

datatype reporter_kind = DiffScoreHandler | LogitScoreHandler | WriteRefAltHandler

record reporter =
  kind :: reporter_kind
  main_rows :: "variant list"
  NA_rows :: "variant list"

definition reporter_handle_batch_predictions :: "reporter \<Rightarrow> variant list \<Rightarrow> reporter" where
  "reporter_handle_batch_predictions r batch_ids = r\<lparr> main_rows := main_rows r @ batch_ids \<rparr>"

definition handle_NA :: "reporter \<Rightarrow> variant \<Rightarrow> reporter" where
  "handle_NA r batch_ids = r\<lparr> NA_rows := NA_rows r @ [batch_ids] \<rparr>"

text \<open>\<open>_initialize_reporters\<close> with \<open>mode="varianteffect"\<close>, lines 222-247.\<close>

definition initialize_reporters :: "string list \<Rightarrow> reporter list" where
  "initialize_reporters save_data =
     (if ''diffs'' \<in> set save_data
      then [\<lparr> kind = DiffScoreHandler, main_rows = [], NA_rows = [] \<rparr>] else []) @
     (if ''logits'' \<in> set save_data
      then [\<lparr> kind = LogitScoreHandler, main_rows = [], NA_rows = [] \<rparr>] else []) @
     (if ''predictions'' \<in> set save_data
      then [\<lparr> kind = WriteRefAltHandler, main_rows = [], NA_rows = [] \<rparr>] else [])"

text \<open>
  \<open>handle_ref_alt_predictions\<close>, lines 350-360: the model's predictions are opaque; every
  reporter is handed the batch.
\<close>

definition handle_ref_alt_predictions :: "variant list \<Rightarrow> reporter list \<Rightarrow> reporter list" where
  "handle_ref_alt_predictions batch_ids reporters =
     map (\<lambda>r. reporter_handle_batch_predictions r batch_ids) reporters"

text \<open>
  Lines 366-382, the body of the loop of \<open>_process_alts\<close> for one alternate allele \<open>a\<close>:
  the spliced sequence, truncated or padded again.
\<close>

definition alt_sequence_of ::
  "analyze_sequences \<Rightarrow> 'e genome \<Rightarrow> string \<Rightarrow> string \<Rightarrow> string \<Rightarrow> int \<Rightarrow> int \<Rightarrow> string
     \<Rightarrow> string" where
  "alt_sequence_of self g a ref chrom start end' reference_sequence =
     (let prefix = take (start_radius self) reference_sequence;
          suffix = drop (start_radius self + length ref) reference_sequence;
          alt_sequence = prefix @ a @ suffix
      in if length alt_sequence > sequence_length self
         then take (sequence_length self) alt_sequence
         else if length alt_sequence < sequence_length self
         then (let add_start = end';
                   add_end = end' + int (sequence_length self) - int (length alt_sequence)
               in if \<not> sequence_in_bounds g chrom add_start add_end
                  then get_sequence_from_coords g chrom
                         (start - int (sequence_length self) + int (length alt_sequence)) start
                       @ alt_sequence
                  else alt_sequence @ get_sequence_from_coords g chrom add_start add_end)
         else alt_sequence)"

text \<open>
  \<open>_process_alts\<close>, lines 362-387; the \<open>assert\<close> of line 384 is a branch of the model.
\<close>

fun process_alts ::
  "analyze_sequences \<Rightarrow> 'e genome \<Rightarrow> string list \<Rightarrow> string \<Rightarrow> string \<Rightarrow> int \<Rightarrow> int \<Rightarrow> string
     \<Rightarrow> py_error + 'e list" where
  "process_alts self g [] ref chrom start end' reference_sequence = Inr []"
| "process_alts self g (a # all_alts) ref chrom start end' reference_sequence =
     (let alt_sequence = alt_sequence_of self g a ref chrom start end' reference_sequence
      in if length alt_sequence \<noteq> sequence_length self then Inl AssertionError
         else (case process_alts self g all_alts ref chrom start end' reference_sequence of
                 Inl e \<Rightarrow> Inl e
               | Inr alt_encodings \<Rightarrow>
                   Inr (sequence_to_encoding g alt_sequence # alt_encodings)))"

text \<open>
  The state of the loop of \<open>variant_effect_prediction\<close>: the three batch lists and the
  reporters.
\<close>

record 'e loop_state =
  batch_ref_seqs :: "'e list"
  batch_alt_seqs :: "'e list"
  batch_ids :: "variant list"
  reporters :: "reporter list"

text \<open>
  Lines 421-448, the loop over the variants. After the call of \<open>handle_NA\<close> for a window
  out of bounds the source has no \<open>continue\<close>: the body goes on with
  \<open>get_sequence_from_coords\<close> and the \<open>assert\<close> of line 431.
\<close>

fun variants_loop ::
  "analyze_sequences \<Rightarrow> 'e genome \<Rightarrow> variant list \<Rightarrow> 'e loop_state \<Rightarrow> py_error + 'e loop_state"
  where
  "variants_loop self g [] st = Inr st"
| "variants_loop self g ((chrom, pos, name, ref, alt) # variants) st =
     (let start = pos - int (start_radius self);
          end' = pos + int (end_radius self);
          st1 = (if \<not> sequence_in_bounds g chrom start end'
                 then st\<lparr> reporters :=
                        map (\<lambda>r. handle_NA r (chrom, pos, name, ref, alt)) (reporters st) \<rparr>
                 else st);
          reference_sequence = get_sequence_from_coords g chrom start end'
      in if length reference_sequence \<noteq> sequence_length self then Inl AssertionError
         else
           (let ref_encoding = sequence_to_encoding g reference_sequence;
                all_alts = split (CHR '','') alt
            in case process_alts self g all_alts ref chrom start end' reference_sequence of
                 Inl e \<Rightarrow> Inl e
               | Inr alt_encodings \<Rightarrow>
                   (let st2 = st1\<lparr>
                          batch_ref_seqs :=
                            batch_ref_seqs st1 @ map (\<lambda>a. ref_encoding) all_alts,
                          batch_ids :=
                            batch_ids st1 @ map (\<lambda>a. (chrom, pos, name, ref, a)) all_alts,
                          batch_alt_seqs := batch_alt_seqs st1 @ alt_encodings \<rparr>
                    in if length (batch_ref_seqs st2) \<ge> batch_size self
                       then variants_loop self g variants
                              (st2\<lparr> reporters :=
                                      handle_ref_alt_predictions (batch_ids st2) (reporters st2),
                                    batch_ref_seqs := [], batch_alt_seqs := [],
                                    batch_ids := [] \<rparr>)
                       else variants_loop self g variants st2)))"

text \<open>
  Lines 414-455 of \<open>variant_effect_prediction\<close>, from the variants read on: the
  reporters at the end of the run, after the last partial batch.
\<close>

definition score_variants ::
  "analyze_sequences \<Rightarrow> 'e genome \<Rightarrow> variant list \<Rightarrow> string list \<Rightarrow> py_error + reporter list"
  where
  "score_variants self g variants save_data =
     (case variants_loop self g variants
             \<lparr> batch_ref_seqs = [], batch_alt_seqs = [], batch_ids = [],
               reporters = initialize_reporters save_data \<rparr> of
        Inl e \<Rightarrow> Inl e
      | Inr st \<Rightarrow>
          Inr (if batch_ref_seqs st \<noteq> []
               then handle_ref_alt_predictions (batch_ids st) (reporters st)
               else reporters st))"

text \<open>\<open>variant_effect_prediction\<close>, lines 406-455, from the lines of the variant file on.\<close>

definition variant_effect_prediction ::
  "analyze_sequences \<Rightarrow> 'e genome \<Rightarrow> string list \<Rightarrow> string list \<Rightarrow> py_error + reporter list"
  where
  "variant_effect_prediction self g vcf_lines save_data =
     (case read_vcf_file vcf_lines of
        Inl e \<Rightarrow> Inl e
      | Inr variants \<Rightarrow> score_variants self g variants save_data)"

text \<open>
  The examples: an engine for windows of four bases, a provider with one chromosome of
  eight bases and one with a chromosome of four bases, and three variant files of one row
  and no header line.
\<close>

definition example_engine :: analyze_sequences where
  "example_engine = AnalyzeSequences 4 64"

definition genome8 :: "string genome" where
  "genome8 = chromosomes_genome [(''chr1'', ''ACGTACGT'')]"

definition genome4 :: "string genome" where
  "genome4 = chromosomes_genome [(''chr1'', ''ACGT'')]"

definition vcf_out_of_bounds :: "string list" where
  "vcf_out_of_bounds = [tsv_line [''chr1'', ''100'', ''rs1'', ''A'', ''T'']]"

definition vcf_in_bounds :: "string list" where
  "vcf_in_bounds = [tsv_line [''chr1'', ''3'', ''rs2'', ''T'', ''C'']]"

definition vcf_deletion :: "string list" where
  "vcf_deletion = [tsv_line [''chr1'', ''2'', ''del1'', ''GT'', ''G'']]"

section \<open>The training controller (\<open>selene/model_train.py\<close>)\<close>

text \<open>
  A checkpoint, as \<open>train_and_validate\<close> builds it (lines 215-220): \<open>'m\<close> is the type of
  the model's parameters, \<open>'o\<close> that of the optimizer's internal state and \<open>'l\<close> that of a
  loss, a linear order whose greatest element stands for \<open>float("inf")\<close>.
\<close>

record ('m, 'o, 'l) checkpoint =
  step :: int
  arch :: string
  state_dict :: 'm
  min_loss :: 'l
  optimizer_state :: 'o

text \<open>
  The opaque collaborators, as functions: \<open>train\<close> (lines 234-256: one batch, forward and
  backward pass, one optimizer step; the new parameters, the new optimizer state and the
  training loss), \<open>validate\<close> (the validation loss and the \<open>roc_auc\<close> score), and the
  learning-rate scheduler \<open>ReduceLROnPlateau\<close> with a state \<open>'s\<close> of its own, whose \<open>step\<close>
  may change the optimizer.
\<close>

record ('m, 'o, 'l, 's) collaborators =
  train :: "'m \<Rightarrow> 'o \<Rightarrow> 'm \<times> 'o \<times> 'l"
  validate :: "'m \<Rightarrow> 'l \<times> real"
  new_scheduler :: 's
  scheduler_step :: "'s \<Rightarrow> real \<Rightarrow> 'o \<Rightarrow> 's \<times> 'o"

text \<open>
  The fields of a \<open>ModelController\<close> that the loop reads and writes. Two lists record what
  the run did: \<open>trained_steps\<close>, the values of \<open>step\<close> at which \<open>self.train()\<close> was called,
  and \<open>saved\<close>, the arguments of the calls of \<open>_save_checkpoint\<close>, in order.
\<close>

record ('m, 'o, 'l) controller =
  model :: 'm
  model_class_name :: string
  optimizer :: 'o
  max_steps :: int
  nth_step_report_stats :: int
  nth_step_save_checkpoint :: int
  start_step :: int
  controller_min_loss :: 'l
  losses_training :: "'l list"
  losses_validation :: "'l list"
  trained_steps :: "int list"
  saved :: "(('m, 'o, 'l) checkpoint \<times> bool) list"

text \<open>
  The constructor, lines 88-153. \<open>not save_checkpoint_every_n_steps\<close> holds for \<open>None\<close> and
  for 0. With a checkpoint to resume from, the step counter, the least loss so far and
  the optimizer's state are taken from it (lines 140-144); the model passed in is used
  as it is.
\<close>

definition ModelController ::
  "'m \<Rightarrow> string \<Rightarrow> 'o \<Rightarrow> int \<Rightarrow> int \<Rightarrow> int option \<Rightarrow> ('m, 'o, 'l::order_top) checkpoint option
     \<Rightarrow> ('m, 'o, 'l) controller" where
  "ModelController m name opt max_steps' report_stats_every_n_steps
       save_checkpoint_every_n_steps checkpoint_resume =
     \<lparr> model = m,
       model_class_name = name,
       optimizer = (case checkpoint_resume of None \<Rightarrow> opt | Some ck \<Rightarrow> optimizer_state ck),
       max_steps = max_steps',
       nth_step_report_stats = report_stats_every_n_steps,
       nth_step_save_checkpoint =
         (case save_checkpoint_every_n_steps of
            None \<Rightarrow> report_stats_every_n_steps
          | Some n \<Rightarrow> if n = 0 then report_stats_every_n_steps else n),
       start_step = (case checkpoint_resume of None \<Rightarrow> 0 | Some ck \<Rightarrow> step ck),
       controller_min_loss = (case checkpoint_resume of None \<Rightarrow> top | Some ck \<Rightarrow> min_loss ck),
       losses_training = [],
       losses_validation = [],
       trained_steps = [],
       saved = [] \<rparr>"

text \<open>The checkpoint of the current state, lines 215-220 and 227-232.\<close>

definition current_checkpoint ::
  "('m, 'o, 'l) controller \<Rightarrow> int \<Rightarrow> 'l \<Rightarrow> ('m, 'o, 'l) checkpoint" where
  "current_checkpoint self step' min_loss' =
     \<lparr> step = step', arch = model_class_name self, state_dict = model self,
       min_loss = min_loss', optimizer_state = optimizer self \<rparr>"

text \<open>
  Lines 204-224, the report every \<open>nth_step_report_stats\<close> steps: validation, the
  scheduler, and a checkpoint that is the best one when the validation loss went down.
  The result is the controller, the local \<open>min_loss\<close> and the scheduler.
\<close>

definition report_stats ::
  "('m, 'o, 'l::linorder, 's) collaborators \<Rightarrow> int \<Rightarrow> 'l \<Rightarrow>
     ('m, 'o, 'l) controller \<times> 'l \<times> 's \<Rightarrow> ('m, 'o, 'l) controller \<times> 'l \<times> 's" where
  "report_stats P step' train_loss x =
     (case x of (self, min_loss', scheduler) \<Rightarrow>
        (case validate P (model self) of (validation_loss, roc_auc) \<Rightarrow>
           (case (if roc_auc \<noteq> 0
                  then scheduler_step P scheduler
                         (of_int \<lceil>roc_auc * 1000\<rceil> / 1000) (optimizer self)
                  else (scheduler, optimizer self)) of
              (scheduler', opt') \<Rightarrow>
                (let self1 = self\<lparr> optimizer := opt',
                                   losses_training := losses_training self @ [train_loss],
                                   losses_validation :=
                                     losses_validation self @ [validation_loss] \<rparr>;
                     is_best = (validation_loss < min_loss');
                     min_loss'' = min validation_loss min_loss'
                 in (self1\<lparr> saved := saved self1 @
                              [(current_checkpoint self1 step' min_loss'', is_best)] \<rparr>,
                     min_loss'', scheduler')))))"

text \<open>
  Lines 199-232, the loop over the steps still to run. \<open>step % n\<close> raises
  \<open>ZeroDivisionError\<close> for \<open>n = 0\<close>; on integers Python's \<open>%\<close> is \<open>mod\<close>.
\<close>

fun training_loop ::
  "('m, 'o, 'l::linorder, 's) collaborators \<Rightarrow> int list \<Rightarrow>
     ('m, 'o, 'l) controller \<times> 'l \<times> 's \<Rightarrow> py_error + ('m, 'o, 'l) controller \<times> 'l \<times> 's"
  where
  "training_loop P [] x = Inr x"
| "training_loop P (step' # steps) (self, min_loss', scheduler) =
     (case train P (model self) (optimizer self) of (m, opt', train_loss) \<Rightarrow>
        (let self1 = self\<lparr> model := m, optimizer := opt',
                           losses_training := losses_training self @ [train_loss],
                           trained_steps := trained_steps self @ [step'] \<rparr>
         in if nth_step_report_stats self1 = 0 then Inl ZeroDivisionError
            else
              (let x2 = (if step' mod nth_step_report_stats self1 = 0
                         then report_stats P step' train_loss (self1, min_loss', scheduler)
                         else (self1, min_loss', scheduler))
               in case x2 of (self2, min_loss2, scheduler2) \<Rightarrow>
                    if nth_step_save_checkpoint self2 = 0 then Inl ZeroDivisionError
                    else training_loop P steps
                           (if step' mod nth_step_save_checkpoint self2 = 0
                            then self2\<lparr> saved := saved self2 @
                                   [(current_checkpoint self2 step' min_loss2, False)] \<rparr>
                            else self2,
                            min_loss2, scheduler2))))"

text \<open>
  \<open>train_and_validate\<close>, lines 195-232: \<open>range(self._start_step, self.max_steps)\<close> is the
  list of the integers from \<open>start_step\<close> to \<open>max_steps - 1\<close>.
\<close>

definition train_and_validate ::
  "('m, 'o, 'l::linorder, 's) collaborators \<Rightarrow> ('m, 'o, 'l) controller
     \<Rightarrow> py_error + ('m, 'o, 'l) controller" where
  "train_and_validate P self =
     (case training_loop P [start_step self..max_steps self - 1]
             (self, controller_min_loss self, new_scheduler P) of
        Inl e \<Rightarrow> Inl e
      | Inr (self', _, _) \<Rightarrow> Inr self')"

text \<open>The steps of the checkpoints that a run has written, in order.\<close>

definition saved_steps :: "('m, 'o, 'l) controller \<Rightarrow> int list" where
  "saved_steps self = map (\<lambda>(ck, is_best). step ck) (saved self)"

text \<open>
  An example: the model's parameters and the optimizer's state are the number of
  optimizer steps taken so far; every loss is 1 and the score is 0.
\<close>

definition counting :: "(nat, nat, enat, unit) collaborators" where
  "counting =
     \<lparr> train = (\<lambda>m opt. (m + 1, opt + 1, 1)),
       validate = (\<lambda>m. (1, 0)),
       new_scheduler = (),
       scheduler_step = (\<lambda>s r opt. (s, opt)) \<rparr>"

text \<open>The checkpoint that an uninterrupted run of the example writes at step 2.\<close>

definition checkpoint_at_2 :: "(nat, nat, enat) checkpoint" where
  "checkpoint_at_2 =
     \<lparr> step = 2, arch = ''Net'', state_dict = 3, min_loss = 1, optimizer_state = 3 \<rparr>"

section \<open>Properties of the mutation enumerator\<close>

lemma length_itertools_combinations:
  "length (itertools_combinations xs r) = length xs choose r"
  by (induction xs r rule: itertools_combinations.induct) simp_all

lemma itertools_combinations_elem:
  "ys \<in> set (itertools_combinations xs r) \<Longrightarrow> length ys = r \<and> set ys \<subseteq> set xs"
  by (induction xs r arbitrary: ys rule: itertools_combinations.induct) fastforce+

lemma itertools_combinations_sorted:
  "sorted_wrt (<) xs \<Longrightarrow> ys \<in> set (itertools_combinations xs r) \<Longrightarrow> sorted_wrt (<) ys"
proof (induction xs r arbitrary: ys rule: itertools_combinations.induct)
  case (3 x xs r)
  from "3.prems"(2) consider (hd) zs where "ys = x # zs" "zs \<in> set (itertools_combinations xs r)"
    | (tl) "ys \<in> set (itertools_combinations xs (Suc r))"
    by auto
  then show ?case
  proof cases
    case hd
    have "sorted_wrt (<) zs" using "3.IH"(1) "3.prems"(1) hd(2) by simp
    moreover have "set zs \<subseteq> set xs" using itertools_combinations_elem hd(2) by blast
    ultimately show ?thesis using "3.prems"(1) hd(1) by auto
  next
    case tl
    then show ?thesis using "3.IH"(2) "3.prems"(1) by simp
  qed
qed simp_all

lemma length_itertools_product:
  "length (itertools_product xss) = prod_list (map length xss)"
  by (induction xss) (simp_all add: length_concat comp_def sum_list_triv)

lemma itertools_product_elem:
  "ys \<in> set (itertools_product xss) \<Longrightarrow> list_all2 (\<lambda>y xs. y \<in> set xs) ys xss"
  by (induction xss arbitrary: ys) auto

lemma prod_list_const:
  "\<forall>x \<in> set xs. f x = (c::nat) \<Longrightarrow> prod_list (map f xs) = c ^ length xs"
  by (induction xs) simp_all

lemma length_filter_neq_distinct:
  "distinct xs \<Longrightarrow> x \<in> set xs \<Longrightarrow> length (filter (\<lambda>y. y \<noteq> x) xs) = length xs - 1"
proof (induction xs)
  case Nil then show ?case by simp
next
  case (Cons a xs)
  show ?case
  proof (cases "a = x")
    case True
    then have "x \<notin> set xs" using Cons.prems by simp
    then have "filter (\<lambda>y. y \<noteq> x) xs = xs" by (auto simp add: filter_id_conv)
    with True show ?thesis by simp
  next
    case False
    then have "x \<in> set xs" using Cons.prems by simp
    then have "length xs > 0" by (cases xs) auto
    with False Cons show ?thesis by simp
  qed
qed

lemma itertools_combinations_distinct:
  "distinct xs \<Longrightarrow> distinct (itertools_combinations xs r)"
proof (induction xs r rule: itertools_combinations.induct)
  case (3 x xs r)
  have "ys \<in> set (itertools_combinations xs (Suc r)) \<Longrightarrow> hd ys \<noteq> x" for ys
    using itertools_combinations_elem[of ys xs "Suc r"] "3.prems" by (cases ys) auto
  then have "set (map ((#) x) (itertools_combinations xs r)) \<inter>
      set (itertools_combinations xs (Suc r)) = {}"
    by fastforce
  moreover have "distinct (map ((#) x) (itertools_combinations xs r))"
    using "3.IH"(1) "3.prems" by (simp add: distinct_map)
  ultimately show ?case using "3.IH"(2) "3.prems" by simp
qed simp_all

lemma itertools_product_distinct:
  "\<forall>xs \<in> set xss. distinct xs \<Longrightarrow> distinct (itertools_product xss)"
proof (induction xss)
  case Nil then show ?case by simp
next
  case (Cons xs xss)
  have d: "distinct (itertools_product xss)" using Cons by simp
  have "distinct xs" using Cons.prems by simp
  then show ?case
  proof (induction xs)
    case Nil then show ?case by simp
  next
    case (Cons a as)
    then show ?case using d by (auto simp: distinct_map)
  qed
qed

lemma distinct_concat_map:
  "distinct cs \<Longrightarrow> (\<And>c. c \<in> set cs \<Longrightarrow> distinct (f c)) \<Longrightarrow>
   (\<And>c c'. c \<in> set cs \<Longrightarrow> c' \<in> set cs \<Longrightarrow> c \<noteq> c' \<Longrightarrow> set (f c) \<inter> set (f c') = {})
   \<Longrightarrow> distinct (concat (map f cs))"
proof (induction cs)
  case Nil then show ?case by simp
next
  case (Cons c cs)
  have "set (f c) \<inter> set (f c') = {}" if "c' \<in> set cs" for c'
    using Cons.prems(1) Cons.prems(3)[of c c'] that by auto
  then have "set (f c) \<inter> \<Union> (set ` f ` set cs) = {}" by blast
  moreover have "distinct (concat (map f cs))"
    using Cons.IH Cons.prems by simp
  ultimately show ?case using Cons.prems(2) by simp
qed

lemma itertools_product_length_elem:
  "ys \<in> set (itertools_product xss) \<Longrightarrow> length ys = length xss"
  using itertools_product_elem list_all2_lengthD by blast

lemma sequence_alts_nth:
  "i < length sequence \<Longrightarrow>
   sequence_alts sequence bases_arr ! i = filter (\<lambda>base. base \<noteq> [sequence ! i]) bases_arr"
  by (simp add: sequence_alts_def)

lemma sum_list_map_const:
  "\<forall>x \<in> set xs. f x = (c::nat) \<Longrightarrow> sum_list (map f xs) = length xs * c"
  by (induction xs) simp_all

lemma length_all_mutated_sequences:
  assumes "distinct bases_arr" and "\<forall>c \<in> set sequence. [c] \<in> set bases_arr"
  shows "length (all_mutated_sequences sequence r bases_arr) =
           (length sequence choose r) * (length bases_arr - 1) ^ r"
proof -
  let ?alts = "sequence_alts sequence bases_arr"
  let ?f = "\<lambda>indices. map (\<lambda>mutations. zip (map int indices) mutations)
            (itertools_product (map (\<lambda>i. ?alts ! i) indices))"
  have one: "length (?f indices) = (length bases_arr - 1) ^ r"
    if "indices \<in> set (itertools_combinations [0..<length sequence] r)" for indices
  proof -
    from that have len: "length indices = r" and sub: "set indices \<subseteq> {0..<length sequence}"
      using itertools_combinations_elem[of indices "[0..<length sequence]" r] by auto
    have "length (?alts ! i) = length bases_arr - 1" if "i \<in> set indices" for i
    proof -
      from that sub have i: "i < length sequence" by auto
      then have "[sequence ! i] \<in> set bases_arr" using assms(2) by simp
      then show ?thesis
        using length_filter_neq_distinct[OF assms(1)] i by (simp add: sequence_alts_nth)
    qed
    then have "prod_list (map length (map (\<lambda>i. ?alts ! i) indices)) =
        (length bases_arr - 1) ^ length indices"
      using prod_list_const[of indices "\<lambda>i. length (?alts ! i)" "length bases_arr - 1"]
      by (simp add: comp_def)
    then show ?thesis by (simp add: length_itertools_product len)
  qed
  have "length (all_mutated_sequences sequence r bases_arr) =
      sum_list (map (\<lambda>indices. length (?f indices))
        (itertools_combinations [0..<length sequence] r))"
    by (simp add: all_mutated_sequences_def length_concat comp_def)
  also have "\<dots> = length (itertools_combinations [0..<length sequence] r) *
      (length bases_arr - 1) ^ r"
    by (rule sum_list_map_const) (use one in blast)
  finally show ?thesis by (simp add: length_itertools_combinations)
qed

lemma all_mutated_sequences_elem:
  assumes "spec \<in> set (all_mutated_sequences sequence r bases_arr)"
  shows "length spec = r" and "sorted_wrt (<) (map fst spec)"
    and "\<forall>(i, b) \<in> set spec. 0 \<le> i \<and> i < int (length sequence) \<and>
           b \<in> set bases_arr \<and> b \<noteq> [sequence ! nat i]"
proof -
  let ?alts = "sequence_alts sequence bases_arr"
  from assms obtain indices mutations where
    idx: "indices \<in> set (itertools_combinations [0..<length sequence] r)" and
    mut: "mutations \<in> set (itertools_product (map (\<lambda>i. ?alts ! i) indices))" and
    spec: "spec = zip (map int indices) mutations"
    by (auto simp: all_mutated_sequences_def)
  from idx have len: "length indices = r" and sub: "set indices \<subseteq> {0..<length sequence}"
    using itertools_combinations_elem[of indices "[0..<length sequence]" r] by auto
  have srt: "sorted_wrt (<) indices"
    using itertools_combinations_sorted[OF _ idx] by simp
  have all2: "list_all2 (\<lambda>y xs. y \<in> set xs) mutations (map (\<lambda>i. ?alts ! i) indices)"
    using itertools_product_elem[OF mut] .
  then have lm: "length mutations = length indices"
    by (auto dest: list_all2_lengthD)
  show "length spec = r" by (simp add: spec lm len)
  have "map fst spec = map int indices" by (simp add: spec lm)
  then show "sorted_wrt (<) (map fst spec)"
    using srt by (simp add: sorted_wrt_map)
  show "\<forall>(i, b) \<in> set spec. 0 \<le> i \<and> i < int (length sequence) \<and>
           b \<in> set bases_arr \<and> b \<noteq> [sequence ! nat i]"
  proof (clarify)
    fix i b assume "(i, b) \<in> set spec"
    then obtain n where n: "n < length indices" "i = int (indices ! n)" "b = mutations ! n"
      by (auto simp: spec in_set_zip lm)
    have in_seq: "indices ! n < length sequence" using sub n(1) by (auto dest: nth_mem)
    have "mutations ! n \<in> set (?alts ! (indices ! n))"
      using list_all2_nthD[OF all2, of n] n(1) lm by simp
    then have "b \<in> set bases_arr \<and> b \<noteq> [sequence ! (indices ! n)]"
      using in_seq n(3) by (simp add: sequence_alts_nth)
    then show "0 \<le> i \<and> i < int (length sequence) \<and> b \<in> set bases_arr \<and> b \<noteq> [sequence ! nat i]"
      using in_seq n(2) by simp
  qed
qed

lemma distinct_all_mutated_sequences:
  assumes "distinct bases_arr"
  shows "distinct (all_mutated_sequences sequence r bases_arr)"
proof -
  let ?alts = "sequence_alts sequence bases_arr"
  let ?f = "\<lambda>indices. map (\<lambda>mutations. zip (map int indices) mutations)
            (itertools_product (map (\<lambda>i. ?alts ! i) indices))"
  let ?cs = "itertools_combinations [0..<length sequence] r"
  have fst_eq: "map fst spec = map int c" if "spec \<in> set (?f c)" for spec c
  proof -
    from that obtain mutations where
      m: "mutations \<in> set (itertools_product (map (\<lambda>i. ?alts ! i) c))"
      and s: "spec = zip (map int c) mutations"
      by auto
    have "length mutations = length c"
      using itertools_product_length_elem[OF m] by simp
    then show ?thesis by (simp add: s)
  qed
  have "distinct (concat (map ?f ?cs))"
  proof (rule distinct_concat_map)
    show "distinct ?cs" by (simp add: itertools_combinations_distinct)
  next
    fix c assume c: "c \<in> set ?cs"
    then have sub: "set c \<subseteq> {0..<length sequence}"
      using itertools_combinations_elem[of c "[0..<length sequence]" r] by auto
    have "\<forall>xs \<in> set (map (\<lambda>i. ?alts ! i) c). distinct xs"
    proof
      fix xs assume "xs \<in> set (map (\<lambda>i. ?alts ! i) c)"
      then obtain i where i: "i \<in> set c" "xs = ?alts ! i" by auto
      then have "i < length sequence" using sub by auto
      with i(2) assms show "distinct xs" by (simp add: sequence_alts_nth)
    qed
    then have d: "distinct (itertools_product (map (\<lambda>i. ?alts ! i) c))"
      by (rule itertools_product_distinct)
    have "inj_on (\<lambda>mutations. zip (map int c) mutations)
        (set (itertools_product (map (\<lambda>i. ?alts ! i) c)))"
    proof (rule inj_onI)
      fix x y
      assume x: "x \<in> set (itertools_product (map (\<lambda>i. ?alts ! i) c))"
        and y: "y \<in> set (itertools_product (map (\<lambda>i. ?alts ! i) c))"
        and eq: "zip (map int c) x = zip (map int c) y"
      have "length x = length c" "length y = length c"
        using itertools_product_length_elem[OF x] itertools_product_length_elem[OF y] by simp_all
      then have sx: "map snd (zip (map int c) x) = x"
        and sy: "map snd (zip (map int c) y) = y"
        by simp_all
      have "map snd (zip (map int c) x) = map snd (zip (map int c) y)"
        by (rule arg_cong[OF eq])
      then show "x = y" unfolding sx sy .
    qed
    with d show "distinct (?f c)" by (simp add: distinct_map)
  next
    fix c c' assume "c \<in> set ?cs" "c' \<in> set ?cs" "c \<noteq> c'"
    show "set (?f c) \<inter> set (?f c') = {}"
    proof (rule ccontr)
      assume "set (?f c) \<inter> set (?f c') \<noteq> {}"
      then obtain spec where "spec \<in> set (?f c)" "spec \<in> set (?f c')" by blast
      then have "map int c = map int c'"
        using fst_eq[of spec c] fst_eq[of spec c'] by simp
      then have "c = c'"
        using inj_on_map_eq_map[of int c c'] by (simp add: inj_on_def)
      with \<open>c \<noteq> c'\<close> show False by simp
    qed
  qed
  then show ?thesis by (simp add: all_mutated_sequences_def)
qed

lemma sorted_wrt_concat_map:
  "sorted_wrt Q cs \<Longrightarrow> (\<And>c. c \<in> set cs \<Longrightarrow> sorted_wrt P (f c)) \<Longrightarrow>
   (\<And>c c' x y. c \<in> set cs \<Longrightarrow> c' \<in> set cs \<Longrightarrow> Q c c' \<Longrightarrow>
      x \<in> set (f c) \<Longrightarrow> y \<in> set (f c') \<Longrightarrow> P x y)
   \<Longrightarrow> sorted_wrt P (concat (map f cs))"
proof (induction cs)
  case Nil
  then show ?case by simp
next
  case (Cons c cs)
  have "sorted_wrt P (concat (map f cs))"
  proof (rule Cons.IH)
    show "sorted_wrt Q cs" using Cons.prems(1) by simp
  next
    fix d assume "d \<in> set cs"
    then show "sorted_wrt P (f d)" using Cons.prems(2)[of d] by simp
  next
    fix d d' x y
    assume "d \<in> set cs" "d' \<in> set cs" "Q d d'" "x \<in> set (f d)" "y \<in> set (f d')"
    then show "P x y" using Cons.prems(3)[of d d' x y] by simp
  qed
  moreover have "sorted_wrt P (f c)" using Cons.prems(2)[of c] by simp
  moreover have "P x y" if "x \<in> set (f c)" "y \<in> set (concat (map f cs))" for x y
  proof -
    from that(2) obtain c' where c': "c' \<in> set cs" "y \<in> set (f c')" by auto
    then have "Q c c'" using Cons.prems(1) by simp
    then show ?thesis using Cons.prems(3)[of c c' x y] c' that(1) by simp
  qed
  ultimately show ?case by (simp add: sorted_wrt_append)
qed

lemma itertools_combinations_lex:
  fixes xs :: "'a::linorder list"
  shows "sorted_wrt (<) xs \<Longrightarrow> sorted_wrt lex_less (itertools_combinations xs r)"
proof (induction xs r rule: itertools_combinations.induct)
  case (3 x xs r)
  have a: "sorted_wrt lex_less (map ((#) x) (itertools_combinations xs r))"
    using "3.IH"(1) "3.prems" by (simp add: sorted_wrt_map)
  have b: "sorted_wrt lex_less (itertools_combinations xs (Suc r))"
    using "3.IH"(2) "3.prems" by simp
  have c: "lex_less u v" if "u \<in> set (map ((#) x) (itertools_combinations xs r))"
    "v \<in> set (itertools_combinations xs (Suc r))" for u v
  proof -
    from that(1) obtain u' where u: "u = x # u'" by auto
    have "length v = Suc r" "set v \<subseteq> set xs"
      using that(2) itertools_combinations_elem[of v xs "Suc r"] by simp_all
    then obtain y v' where v: "v = y # v'" "y \<in> set xs" by (cases v) auto
    then have "x < y" using "3.prems" by simp
    then show ?thesis by (simp add: u v)
  qed
  show ?case using a b c by (simp add: sorted_wrt_append)
qed simp_all

lemma itertools_product_lex:
  fixes f :: "'b \<Rightarrow> 'a::linorder"
  assumes "\<forall>xs \<in> set xss. sorted_wrt (\<lambda>a b. f a < f b) xs"
  shows "sorted_wrt (\<lambda>s t. lex_less (map f s) (map f t)) (itertools_product xss)"
  using assms
proof (induction xss)
  case Nil
  then show ?case by simp
next
  case (Cons xs xss)
  have ih: "sorted_wrt (\<lambda>s t. lex_less (map f s) (map f t)) (itertools_product xss)"
    using Cons by simp
  have "sorted_wrt (\<lambda>s t. lex_less (map f s) (map f t))
      (concat (map (\<lambda>x. map ((#) x) (itertools_product xss)) xs))"
  proof (rule sorted_wrt_concat_map[where Q = "\<lambda>a b. f a < f b"])
    show "sorted_wrt (\<lambda>a b. f a < f b) xs" using Cons.prems by simp
  next
    fix c assume "c \<in> set xs"
    show "sorted_wrt (\<lambda>s t. lex_less (map f s) (map f t)) (map ((#) c) (itertools_product xss))"
      using ih by (simp add: sorted_wrt_map)
  next
    fix c c' x y
    assume "f c < f c'" "x \<in> set (map ((#) c) (itertools_product xss))"
      "y \<in> set (map ((#) c') (itertools_product xss))"
    then show "lex_less (map f x) (map f y)" by auto
  qed
  then show ?case by simp
qed

lemma base_index_sorted:
  "distinct bases \<Longrightarrow> sorted_wrt (\<lambda>a b. base_index bases a < base_index bases b) bases"
proof (induction bases)
  case Nil
  then show ?case by simp
next
  case (Cons x xs)
  have "sorted_wrt (\<lambda>a b. base_index xs a < base_index xs b) xs"
    using Cons by simp
  then have "sorted_wrt (\<lambda>a b. base_index (x # xs) a < base_index (x # xs) b) xs"
  proof (rule sorted_wrt_mono_rel[rotated])
    fix a b assume "a \<in> set xs" "b \<in> set xs" "base_index xs a < base_index xs b"
    then show "base_index (x # xs) a < base_index (x # xs) b"
      using Cons.prems by auto
  qed
  moreover have "\<forall>y \<in> set xs. base_index (x # xs) x < base_index (x # xs) y"
    using Cons.prems by auto
  ultimately show ?case by simp
qed

lemma lex_less_map_int: "lex_less xs ys \<Longrightarrow> lex_less (map int xs) (map int ys)"
  by (induction xs ys rule: lex_less.induct) auto

lemma map_case_snd_zip:
  "length xs = length ys \<Longrightarrow> map (\<lambda>(i, b). g b) (zip xs ys) = map g ys"
  by (induction xs ys rule: list_induct2) simp_all

lemma all_mutated_sequences_ordered:
  assumes "distinct bases_arr"
  shows "sorted_wrt (spec_before bases_arr) (all_mutated_sequences sequence r bases_arr)"
proof -
  let ?alts = "sequence_alts sequence bases_arr"
  let ?f = "\<lambda>indices. map (\<lambda>mutations. zip (map int indices) mutations)
            (itertools_product (map (\<lambda>i. ?alts ! i) indices))"
  let ?cs = "itertools_combinations [0..<length sequence] r"
  let ?bi = "base_index bases_arr"
  have fst_eq: "map fst spec = map int c" if "spec \<in> set (?f c)" for spec c
  proof -
    from that obtain mutations where
      m: "mutations \<in> set (itertools_product (map (\<lambda>i. ?alts ! i) c))"
      and s: "spec = zip (map int c) mutations"
      by auto
    have "length mutations = length c"
      using itertools_product_length_elem[OF m] by simp
    then show ?thesis by (simp add: s)
  qed
  have "sorted_wrt (spec_before bases_arr) (concat (map ?f ?cs))"
  proof (rule sorted_wrt_concat_map[where Q = lex_less])
    show "sorted_wrt lex_less ?cs"
      by (rule itertools_combinations_lex) simp
  next
    fix c assume c: "c \<in> set ?cs"
    then have sub: "set c \<subseteq> {0..<length sequence}"
      using itertools_combinations_elem[of c "[0..<length sequence]" r] by auto
    have "\<forall>xs \<in> set (map (\<lambda>i. ?alts ! i) c). sorted_wrt (\<lambda>a b. ?bi a < ?bi b) xs"
    proof
      fix xs assume "xs \<in> set (map (\<lambda>i. ?alts ! i) c)"
      then obtain i where i: "i \<in> set c" "xs = ?alts ! i" by auto
      then have "i < length sequence" using sub by auto
      with i(2) have "xs = filter (\<lambda>base. base \<noteq> [sequence ! i]) bases_arr"
        by (simp add: sequence_alts_nth)
      then show "sorted_wrt (\<lambda>a b. ?bi a < ?bi b) xs"
        using base_index_sorted[OF assms] by (simp add: sorted_wrt_filter)
    qed
    then have p: "sorted_wrt (\<lambda>s t. lex_less (map ?bi s) (map ?bi t))
        (itertools_product (map (\<lambda>i. ?alts ! i) c))"
      by (rule itertools_product_lex)
    have "sorted_wrt (\<lambda>m m'. spec_before bases_arr (zip (map int c) m) (zip (map int c) m'))
        (itertools_product (map (\<lambda>i. ?alts ! i) c))"
    proof (rule sorted_wrt_mono_rel[OF _ p])
      fix m m'
      assume m: "m \<in> set (itertools_product (map (\<lambda>i. ?alts ! i) c))"
        and m': "m' \<in> set (itertools_product (map (\<lambda>i. ?alts ! i) c))"
        and l: "lex_less (map ?bi m) (map ?bi m')"
      have lm: "length (map int c) = length m" "length (map int c) = length m'"
        using itertools_product_length_elem[OF m] itertools_product_length_elem[OF m']
        by simp_all
      have "map (\<lambda>(i, b). ?bi b) (zip (map int c) m) = map ?bi m"
        "map (\<lambda>(i, b). ?bi b) (zip (map int c) m') = map ?bi m'"
        using lm by (simp_all only: map_case_snd_zip)
      moreover have "map fst (zip (map int c) m) = map fst (zip (map int c) m')"
        using lm by simp
      ultimately show "spec_before bases_arr (zip (map int c) m) (zip (map int c) m')"
        using l unfolding spec_before_def by simp
    qed
    then show "sorted_wrt (spec_before bases_arr) (?f c)"
      by (simp add: sorted_wrt_map)
  next
    fix c c' x y
    assume "lex_less c c'" and x: "x \<in> set (?f c)" and y: "y \<in> set (?f c')"
    then have "lex_less (map int c) (map int c')" by (simp add: lex_less_map_int)
    then show "spec_before bases_arr x y"
      unfolding spec_before_def fst_eq[OF x] fst_eq[OF y] by simp
  qed
  then show ?thesis by (simp add: all_mutated_sequences_def)
qed

text \<open>
  Claim C4. For a sequence of length \<open>L\<close> whose symbols all belong to an alphabet of
  \<open>A\<close> pairwise different bases and for \<open>1 \<le> k \<le> L\<close>, the enumerator returns (it does
  not raise) exactly \<open>C(L, k) * (A - 1) ^ k\<close> mutation specifications, no specification
  twice; each has \<open>k\<close> positions in strictly ascending order, all within the sequence, and
  each replacement base is a base of the alphabet different from the reference base at its
  position. The specifications come in the order of their positions (lexicographically,
  the order of the combinations) and, for the same positions, in the order of their
  replacement bases by place in the alphabet. The enumerator is a function of its
  arguments, so the order is the same on every run.
\<close>

theorem in_silico_mutagenesis_sequences_enumeration:
  assumes "distinct bases_arr"
    and "\<forall>c \<in> set sequence. [c] \<in> set bases_arr"
    and "1 \<le> k" and "k \<le> int (length sequence)"
  shows "\<exists>specs.
           in_silico_mutagenesis_sequences sequence k (Some bases_arr) = Inr specs \<and>
           length specs = (length sequence choose nat k) * (length bases_arr - 1) ^ nat k \<and>
           distinct specs \<and>
           sorted_wrt (spec_before bases_arr) specs \<and>
           (\<forall>spec \<in> set specs.
              length spec = nat k \<and> sorted_wrt (<) (map fst spec) \<and>
              (\<forall>(i, b) \<in> set spec.
                 0 \<le> i \<and> i < int (length sequence) \<and>
                 b \<in> set bases_arr \<and> b \<noteq> [sequence ! nat i]))"
proof -
  from assms(3,4) have "sequence \<noteq> []" by auto
  then have ne: "bases_arr \<noteq> []" using assms(2) by (cases sequence) auto
  let ?specs = "all_mutated_sequences sequence (nat k) bases_arr"
  have "in_silico_mutagenesis_sequences sequence k (Some bases_arr) = Inr ?specs"
    using ne assms(3) by (simp add: in_silico_mutagenesis_sequences_def)
  moreover have "length ?specs =
      (length sequence choose nat k) * (length bases_arr - 1) ^ nat k"
    using assms(1,2) by (rule length_all_mutated_sequences)
  moreover have "distinct ?specs"
    using assms(1) by (rule distinct_all_mutated_sequences)
  moreover have "sorted_wrt (spec_before bases_arr) ?specs"
    using assms(1) by (rule all_mutated_sequences_ordered)
  moreover have "\<forall>spec \<in> set ?specs.
      length spec = nat k \<and> sorted_wrt (<) (map fst spec) \<and>
      (\<forall>(i, b) \<in> set spec.
         0 \<le> i \<and> i < int (length sequence) \<and>
         b \<in> set bases_arr \<and> b \<noteq> [sequence ! nat i])"
    using all_mutated_sequences_elem by blast
  ultimately show ?thesis by blast
qed

theorem in_silico_mutagenesis_sequences_enumeration_witness:
  "\<exists>specs.
     in_silico_mutagenesis_sequences ''ACGT'' 1 (Some [''A'', ''C'', ''G'', ''T'']) = Inr specs \<and>
     length specs = 12 \<and> distinct specs"
proof -
  have h1: "distinct [''A'', ''C'', ''G'', ''T'']" by simp
  have h2: "\<forall>c \<in> set ''ACGT''. [c] \<in> set [''A'', ''C'', ''G'', ''T'']" by simp
  have h3: "(1::int) \<le> 1" by simp
  have h4: "(1::int) \<le> int (length ''ACGT'')" by simp
  from in_silico_mutagenesis_sequences_enumeration[OF h1 h2 h3 h4]
  show ?thesis by auto
qed

text \<open>
  Claim C5 (evaluation at a failing input). Asked for the two-base mutations of
  \<open>AC\<close>, \<open>in_silico_mutagenesis\<close> hands the six single-base mutations to the scoring loop,
  not the nine two-base mutations that the enumerator produces for \<open>mutate_n_bases = 2\<close>.
\<close>

theorem in_silico_mutagenesis_scores_single_base_mutations_only:
  "in_silico_mutagenesis_mutated_sequences ''AC'' 2 =
     Inr [[(0, ''C'')], [(0, ''G'')], [(0, ''T'')], [(1, ''A'')], [(1, ''G'')], [(1, ''T'')]] \<and>
   in_silico_mutagenesis_sequences ''AC'' 2 None =
     Inr [[(0, ''C''), (1, ''A'')], [(0, ''C''), (1, ''G'')], [(0, ''C''), (1, ''T'')],
          [(0, ''G''), (1, ''A'')], [(0, ''G''), (1, ''G'')], [(0, ''G''), (1, ''T'')],
          [(0, ''T''), (1, ''A'')], [(0, ''T''), (1, ''G'')], [(0, ''T''), (1, ''T'')]]"
  by (simp add: in_silico_mutagenesis_mutated_sequences_def in_silico_mutagenesis_sequences_def
      all_mutated_sequences_def sequence_alts_def Genome_BASES_ARR_def upt_rec numeral_2_eq_2)

section \<open>Properties of the sequence mutator\<close>

lemma one_hot_unit_row:
  assumes "c < w"
  shows "one_hot ((replicate w (0::'a::zero_neq_one))[c := 1])"
proof -
  have "(replicate w (0::'a))[c := 1] = replicate c 0 @ 1 # replicate (w - Suc c) 0"
    using assms by (simp add: upd_conv_take_nth_drop)
  then show ?thesis using assms by (simp add: one_hot_def)
qed

lemma np_index_nonneg: "0 \<le> i \<Longrightarrow> i < int n \<Longrightarrow> np_index n i = Some (nat i)"
  by (simp add: np_index_def)

lemma mutate_loop_frame:
  "mutate_loop s a info d = (s', r) \<Longrightarrow>
   length s' = length s \<and> (\<forall>b. b \<noteq> a \<longrightarrow> s' ! b = s ! b)"
proof (induction info arbitrary: s)
  case Nil
  then show ?case by simp
next
  case (Cons x info)
  obtain position alt where x: "x = (position, alt)" by (cases x)
  show ?case
  proof (cases "map_of d alt")
    case None
    with Cons.prems x show ?thesis by simp
  next
    case (Some replace_base)
    show ?thesis
    proof (cases "assign_row (s ! a) position 0")
      case (Inl e)
      with Cons.prems x Some show ?thesis by simp
    next
      case (Inr m0)
      show ?thesis
      proof (cases "assign_cell m0 position replace_base 1")
        case (Inl e)
        with Cons.prems x Some Inr show ?thesis by auto
      next
        case m1: (Inr m1)
        with Cons.prems x Some Inr
        have "mutate_loop (s[a := m1]) a info d = (s', r)" by simp
        from Cons.IH[OF this] show ?thesis by auto
      qed
    qed
  qed
qed

lemma mutate_loop_one_hot:
  fixes s :: "'a::zero_neq_one store"
  assumes "a < length s"
    and "list_all one_hot (s ! a)"
    and "\<forall>row \<in> set (s ! a). length row = w"
    and "\<forall>(position, alt) \<in> set info.
           0 \<le> position \<and> position < int (length (s ! a)) \<and>
           (\<exists>j. map_of d alt = Some j \<and> 0 \<le> j \<and> j < int w)"
  shows "\<exists>s'. mutate_loop s a info d = (s', Inr ()) \<and>
           length (s' ! a) = length (s ! a) \<and> list_all one_hot (s' ! a)"
  using assms
proof (induction info arbitrary: s)
  case Nil
  then show ?case by simp
next
  case (Cons x info)
  obtain position alt where x: "x = (position, alt)" by (cases x)
  let ?m = "s ! a"
  from Cons.prems(4) x obtain j where
    p: "0 \<le> position" "position < int (length ?m)" and
    j: "map_of d alt = Some j" "0 \<le> j" "j < int w"
    by auto
  let ?r = "nat position" and ?c = "nat j"
  have r: "?r < length ?m" using p by simp
  have c: "?c < w" using j by simp
  have wr: "length (?m ! ?r) = w" using Cons.prems(3) r by simp
  let ?mz = "?m[?r := replicate w 0]"
  let ?mo = "?m[?r := (replicate w 0)[?c := 1]]"
  have a0: "assign_row ?m position 0 = Inr ?mz"
    using p wr by (simp add: assign_row_def np_index_nonneg)
  have a1: "assign_cell ?mz position j 1 = Inr ?mo"
    using p j r by (simp add: assign_cell_def np_index_nonneg)
  have step: "mutate_loop s a (x # info) d = mutate_loop (s[a := ?mo]) a info d"
    using x j(1) a0 a1 by simp
  let ?sn = "s[a := ?mo]"
  have s1a: "?sn ! a = ?mo" using Cons.prems(1) by simp
  have sub: "set ?mo \<subseteq> insert ((replicate w 0)[?c := 1]) (set ?m)"
    by (rule set_update_subset_insert)
  have h1: "a < length ?sn" using Cons.prems(1) by simp
  have h2: "list_all one_hot (?sn ! a)"
    unfolding s1a list_all_iff
  proof
    fix row assume "row \<in> set ?mo"
    with sub have "row = (replicate w 0)[?c := 1] \<or> row \<in> set ?m" by auto
    then show "one_hot row"
      using one_hot_unit_row[OF c] Cons.prems(2) by (auto simp: list_all_iff)
  qed
  have h3: "\<forall>row \<in> set (?sn ! a). length row = w"
    unfolding s1a
  proof
    fix row assume "row \<in> set ?mo"
    with sub have "row = (replicate w 0)[?c := 1] \<or> row \<in> set ?m" by auto
    then show "length row = w" using Cons.prems(3) by auto
  qed
  have h4: "\<forall>(position, alt) \<in> set info.
           0 \<le> position \<and> position < int (length (?sn ! a)) \<and>
           (\<exists>j. map_of d alt = Some j \<and> 0 \<le> j \<and> j < int w)"
    unfolding s1a using Cons.prems(4) by auto
  from Cons.IH[OF h1 h2 h3 h4] obtain s' where
    "mutate_loop ?sn a info d = (s', Inr ())" "length (s' ! a) = length (?sn ! a)"
    "list_all one_hot (s' ! a)" by blast
  then show ?case using step s1a by simp
qed

text \<open>
  Claim C9. If every row of the input encoding is one-hot, the encoding is rectangular of
  some width, every position of the mutation specification lies in \<open>[0, length)\<close> and every
  replacement base is a key of the base-to-index dictionary in use, mapped to a column of
  the encoding, then \<open>mutate_sequence\<close> returns (it does not raise) an encoding with as many
  rows, every one of them one-hot.
\<close>

theorem mutate_sequence_one_hot:
  fixes s :: "'a::zero_neq_one store"
  assumes "encoded_sequence < length s"
    and "list_all one_hot (s ! encoded_sequence)"
    and "\<forall>row \<in> set (s ! encoded_sequence). length row = width"
    and "\<forall>(position, alt) \<in> set mutation_information.
           0 \<le> position \<and> position < int (length (s ! encoded_sequence)) \<and>
           (\<exists>j. map_of (resolve_base_to_index base_to_index) alt = Some j \<and>
                0 \<le> j \<and> j < int width)"
  shows "\<exists>s' mutated_seq.
           mutate_sequence s encoded_sequence mutation_information base_to_index =
             (s', Inr mutated_seq) \<and>
           length (s' ! mutated_seq) = length (s ! encoded_sequence) \<and>
           list_all one_hot (s' ! mutated_seq)"
proof -
  let ?sc = "s @ [s ! encoded_sequence]"
  let ?a = "length s"
  let ?d = "resolve_base_to_index base_to_index"
  have ca: "?sc ! ?a = s ! encoded_sequence" by simp
  have h1: "?a < length ?sc" by simp
  have h2: "list_all one_hot (?sc ! ?a)" unfolding ca by (rule assms(2))
  have h3: "\<forall>row \<in> set (?sc ! ?a). length row = width" unfolding ca by (rule assms(3))
  have h4: "\<forall>(position, alt) \<in> set mutation_information.
           0 \<le> position \<and> position < int (length (?sc ! ?a)) \<and>
           (\<exists>j. map_of ?d alt = Some j \<and> 0 \<le> j \<and> j < int width)"
    unfolding ca by (rule assms(4))
  from mutate_loop_one_hot[OF h1 h2 h3 h4] obtain s' where
    l: "mutate_loop ?sc ?a mutation_information ?d = (s', Inr ())" and
    n: "length (s' ! ?a) = length (?sc ! ?a)" and o: "list_all one_hot (s' ! ?a)"
    by blast
  have "mutate_sequence s encoded_sequence mutation_information base_to_index = (s', Inr ?a)"
    using l by (simp add: mutate_sequence_def np_copy_def)
  with n o ca show ?thesis by auto
qed

theorem mutate_sequence_one_hot_witness:
  "\<exists>s'. mutate_sequence [[[1, 0, 0, 0], [0, 1, 0, 0 :: int]]] 0 [(0, ''T'')] None = (s', Inr 1) \<and>
        list_all one_hot (s' ! 1)"
proof -
  let ?s = "[[[1, 0, 0, 0], [0, 1, 0, 0 :: int]]]"
  have h1: "(0::nat) < length ?s" by simp
  have h2: "list_all one_hot (?s ! 0)" by (simp add: one_hot_def)
  have h3: "\<forall>row \<in> set (?s ! 0). length row = 4" by simp
  have h4: "\<forall>(position, alt) \<in> set [(0::int, ''T'')].
           0 \<le> position \<and> position < int (length (?s ! 0)) \<and>
           (\<exists>j. map_of (resolve_base_to_index None) alt = Some j \<and> 0 \<le> j \<and> j < int 4)"
    by (simp add: resolve_base_to_index_def Genome_BASE_TO_INDEX_def)
  from mutate_sequence_one_hot[OF h1 h2 h3 h4] obtain s' m where
    r: "mutate_sequence ?s 0 [(0, ''T'')] None = (s', Inr m)" and o: "list_all one_hot (s' ! m)"
    by blast
  have "mutate_sequence ?s 0 [(0, ''T'')] None =
      ([[[1, 0, 0, 0], [0, 1, 0, 0]], [[0, 0, 0, 1], [0, 1, 0, 0]]], Inr 1)"
    by (simp add: mutate_sequence_def np_copy_def resolve_base_to_index_def
        Genome_BASE_TO_INDEX_def assign_row_def assign_cell_def np_index_def)
  with r o show ?thesis by auto
qed

text \<open>
  Claim C10. \<open>mutate_sequence\<close> is non-destructive: whatever the mutation specification
  and the dictionary, and also when the call raises, the input encoding (and every other
  array that existed before the call) is unchanged afterwards, and a returned encoding is
  a new array, at an address different from the input's.
\<close>

theorem mutate_sequence_non_destructive:
  assumes "encoded_sequence < length s"
    and "mutate_sequence s encoded_sequence mutation_information base_to_index = (s', r)"
  shows "s' ! encoded_sequence = s ! encoded_sequence \<and>
         take (length s) s' = s \<and>
         (case r of Inl e \<Rightarrow> True
          | Inr mutated_seq \<Rightarrow> mutated_seq = length s \<and> mutated_seq \<noteq> encoded_sequence)"
proof -
  let ?sc = "s @ [s ! encoded_sequence]"
  let ?d = "resolve_base_to_index base_to_index"
  obtain s2 r2 where l: "mutate_loop ?sc (length s) mutation_information ?d = (s2, r2)"
    by (cases "mutate_loop ?sc (length s) mutation_information ?d")
  from assms(2) l have s': "s' = s2"
    and r: "r = (case r2 of Inl e \<Rightarrow> Inl e | Inr _ \<Rightarrow> Inr (length s))"
    by (simp_all add: mutate_sequence_def np_copy_def)
  from mutate_loop_frame[OF l] have len: "length s2 = Suc (length s)"
    and fr: "\<And>b. b \<noteq> length s \<Longrightarrow> s2 ! b = ?sc ! b"
    by simp_all
  have same: "s2 ! b = s ! b" if "b < length s" for b
    using fr[of b] that by (simp add: nth_append)
  have "take (length s) s2 = s"
    by (rule nth_equalityI) (simp_all add: len same)
  moreover have "s2 ! encoded_sequence = s ! encoded_sequence"
    using same assms(1) by simp
  moreover have "case r of Inl e \<Rightarrow> True
      | Inr mutated_seq \<Rightarrow> mutated_seq = length s \<and> mutated_seq \<noteq> encoded_sequence"
    using r assms(1) by (cases r2) simp_all
  ultimately show ?thesis using s' by simp
qed

theorem mutate_sequence_non_destructive_witness:
  "mutate_sequence [[[1, 0, 0, 0], [0, 1, 0, 0 :: int]]] 0 [(1, ''G'')] None =
     ([[[1, 0, 0, 0], [0, 1, 0, 0]], [[1, 0, 0, 0], [0, 0, 1, 0]]], Inr 1) \<and>
   [[[1, 0, 0, 0], [0, 1, 0, 0 :: int]], [[1, 0, 0, 0], [0, 0, 1, 0]]] ! 0 =
     [[[1, 0, 0, 0], [0, 1, 0, 0]]] ! 0"
proof -
  let ?s = "[[[1, 0, 0, 0], [0, 1, 0, 0 :: int]]]"
  have h1: "(0::nat) < length ?s" by simp
  have h2: "mutate_sequence ?s 0 [(1, ''G'')] None =
      ([[[1, 0, 0, 0], [0, 1, 0, 0]], [[1, 0, 0, 0], [0, 0, 1, 0]]], Inr 1)"
    by (simp add: mutate_sequence_def np_copy_def resolve_base_to_index_def
        Genome_BASE_TO_INDEX_def assign_row_def assign_cell_def np_index_def)
  from mutate_sequence_non_destructive[OF h1 h2] h2 show ?thesis by simp
qed

section \<open>Properties of the predictions handler\<close>

text \<open>
  Claim C8, as amended. Flushing a handler that has no pending NA rows does not raise
  (given that the handle is open when there are rows to write) and leaves the buffer
  empty. With an empty buffer it writes no line and closes the output handle, whatever
  the \<open>close\<close> flag is; with a non-empty buffer it writes the buffered rows, in order,
  clears both buffers and closes the handle if and only if the flag is set.
\<close>

theorem write_to_file_flush:
  assumes "NA_samples h = []"
    and "results h \<noteq> [] \<longrightarrow> \<not> closed (output_handle h)"
  shows "\<exists>h'. write_to_file h close = Inr h' \<and>
           results h' = [] \<and>
           (if results h = []
            then content (output_handle h') = content (output_handle h) \<and>
                 closed (output_handle h')
            else content (output_handle h') =
                   content (output_handle h) @
                   map (\<lambda>(info, preds). Row info preds)
                     (zip (concat (samples h)) (concat (results h))) \<and>
                 samples h' = [] \<and>
                 (closed (output_handle h') \<longleftrightarrow> close))"
proof (cases "results h = []")
  case True
  then show ?thesis using assms(1) by (simp add: write_to_file_def)
next
  case False
  then have "\<not> closed (output_handle h)" using assms(2) by simp
  then show ?thesis
    using False assms(1) by (simp add: write_to_file_def handler_write_to_file_def)
qed

theorem write_to_file_flush_witness:
  "\<exists>h'. write_to_file example_handler False = Inr h' \<and> results h' = [] \<and>
     content (output_handle h') =
       [Header [''pos'', ''ref'', ''alt'', ''f1''], Row [''0'', ''A'', ''C''] [1]] \<and>
     \<not> closed (output_handle h')"
proof -
  have h1: "NA_samples example_handler = []"
    by (simp add: example_handler_def WritePredictionsHandler_def)
  have h2: "results example_handler \<noteq> [] \<longrightarrow> \<not> closed (output_handle example_handler)"
    by (simp add: example_handler_def WritePredictionsHandler_def)
  from write_to_file_flush[OF h1 h2, of False]
  have "\<exists>h'. write_to_file example_handler False = Inr h' \<and> results h' = [] \<and>
     content (output_handle h') =
       [Header [''pos'', ''ref'', ''alt'', ''f1''], Row [''0'', ''A'', ''C''] [1]] \<and>
     samples h' = [] \<and> \<not> closed (output_handle h')"
    by (simp add: example_handler_def WritePredictionsHandler_def)
  then show ?thesis by blast
qed

text \<open>
  Claim C8 as stated fails: a flush with an empty buffer and \<open>close=False\<close> closes the
  handle of a freshly constructed handler.
\<close>

theorem write_to_file_empty_buffer_closes_handle:
  "write_to_file (WritePredictionsHandler [''f1''] [''pos'', ''ref'', ''alt''] ''ism_preds.txt''
       :: int handler) False =
     Inr ((WritePredictionsHandler [''f1''] [''pos'', ''ref'', ''alt''] ''ism_preds.txt'')
            \<lparr> output_handle :=
                \<lparr> content = [Header [''pos'', ''ref'', ''alt'', ''f1'']], closed = True \<rparr> \<rparr>)"
  by (simp add: write_to_file_def WritePredictionsHandler_def)

text \<open>
  Claim C7, as amended. \<open>handle_batch_predictions\<close> appends the batch to the buffer and
  flushes (writes every buffered row and clears the buffer) exactly when the number of
  buffered batches, the new one included, exceeds 200,000; so after the call at most
  200,000 batches are buffered.
\<close>

theorem handle_batch_predictions_flush:
  assumes "NA_samples h = []" and "\<not> closed (output_handle h)"
  shows "\<exists>h'. handle_batch_predictions h batch_predictions ids = Inr h' \<and>
           length (results h') \<le> 200000 \<and>
           (if length (results h) + 1 > 200000
            then results h' = [] \<and> samples h' = [] \<and>
                 content (output_handle h') =
                   content (output_handle h) @
                   map (\<lambda>(info, preds). Row info preds)
                     (zip (concat (samples h @ [ids]))
                          (concat (results h @ [batch_predictions])))
            else results h' = results h @ [batch_predictions] \<and>
                 samples h' = samples h @ [ids] \<and>
                 output_handle h' = output_handle h)"
proof (cases "length (results h) + 1 > 200000")
  case True
  then show ?thesis
    using assms
    by (simp add: handle_batch_predictions_def write_to_file_def handler_write_to_file_def)
next
  case False
  then show ?thesis
    by (simp add: handle_batch_predictions_def)
qed

theorem handle_batch_predictions_flush_witness:
  "\<exists>h'. handle_batch_predictions full_handler [[7]] [[''3'', ''G'', ''T'']] = Inr h' \<and>
     results h' = [] \<and>
     content (output_handle h') =
       [Header [''pos'', ''ref'', ''alt'', ''f1''], Row [''3'', ''G'', ''T''] [7]]"
proof -
  have h1: "NA_samples full_handler = []"
    by (simp add: full_handler_def WritePredictionsHandler_def)
  have h2: "\<not> closed (output_handle full_handler)"
    by (simp add: full_handler_def WritePredictionsHandler_def)
  from handle_batch_predictions_flush[OF h1 h2, of "[[7]]" "[[''3'', ''G'', ''T'']]"]
  have "\<exists>h'. handle_batch_predictions full_handler [[7]] [[''3'', ''G'', ''T'']] = Inr h' \<and>
     length (results h') \<le> 200000 \<and> results h' = [] \<and> samples h' = [] \<and>
     content (output_handle h') =
       [Header [''pos'', ''ref'', ''alt'', ''f1''], Row [''3'', ''G'', ''T''] [7]]"
    by (simp add: full_handler_def WritePredictionsHandler_def)
  then show ?thesis by blast
qed

text \<open>
  Claim C7 as stated fails: a first batch of 200,001 rows is buffered without a flush, so
  the buffer holds more than 200,000 rows and the file holds none of them.
\<close>

theorem handle_batch_predictions_counts_batches_not_rows:
  "handle_batch_predictions
     (WritePredictionsHandler [''f1''] [''pos'', ''ref'', ''alt''] ''ism_preds.txt'' :: int handler)
     (replicate 200001 [0]) (replicate 200001 [''0'', ''A'', ''C'']) =
   Inr ((WritePredictionsHandler [''f1''] [''pos'', ''ref'', ''alt''] ''ism_preds.txt'')
          \<lparr> results := [replicate 200001 [0]],
            samples := [replicate 200001 [''0'', ''A'', ''C'']] \<rparr>) \<and>
   buffered_rows
     ((WritePredictionsHandler [''f1''] [''pos'', ''ref'', ''alt''] ''ism_preds.txt'' :: int handler)
          \<lparr> results := [replicate 200001 [0]],
            samples := [replicate 200001 [''0'', ''A'', ''C'']] \<rparr>) = 200001"
  by (simp add: handle_batch_predictions_def WritePredictionsHandler_def buffered_rows_def)

section \<open>Properties of \<open>read_vcf_file\<close>\<close>

lemma py_int_POS: "py_int ''POS'' = None"
  by code_simp

lemma starts_with_hd: "starts_with (c # cs) s \<Longrightarrow> c \<in> set s"
  by (cases s) auto

lemma str_contains_hd: "str_contains (c # cs) s \<Longrightarrow> c \<in> set s"
  by (induction s) (auto dest: starts_with_hd)

lemma header_loop_comments:
  assumes "\<forall>c \<in> set comments. CHR ''#'' \<in> set c \<and> \<not> str_contains ''#CHROM'' c"
    and "str_contains ''#CHROM'' header"
    and "take 5 (split TAB (strip header)) = VCF_REQUIRED_COLS"
  shows "header_loop (comments @ header # rows) index = Inr (index + length comments)"
  using assms(1)
proof (induction comments arbitrary: index)
  case Nil
  have "CHR ''#'' \<in> set header" using assms(2) by (rule str_contains_hd)
  then show ?case using assms(2,3) by simp
next
  case (Cons c comments)
  then show ?case by simp
qed

lemma rows_loop_header:
  assumes "take 5 (split TAB (strip header)) = VCF_REQUIRED_COLS"
  shows "rows_loop (header # rows) variants = Inl (ValueError ''invalid literal for int()'')"
proof -
  let ?cols = "split TAB (strip header)"
  have len: "length (take 5 ?cols) = 5" using assms by (simp add: VCF_REQUIRED_COLS_def)
  then have l5: "\<not> length ?cols < 5" by simp
  have "take 5 ?cols ! 1 = ''POS''" using assms by (simp add: VCF_REQUIRED_COLS_def)
  then have "?cols ! 1 = ''POS''" by simp
  then show ?thesis using l5 py_int_POS by (simp add: Let_def)
qed

text \<open>
  Claim C6 (the failing inputs). A file is given as comment lines (each with a \<open>#\<close> and
  without \<open>#CHROM\<close>), then a header line whose first five columns are the required ones,
  then any rows. The first loop accepts the header and leaves \<open>index\<close> at the header line,
  so the second loop reads the header line as a data row and \<open>int('POS')\<close> raises
  \<open>ValueError\<close>: no conforming file with a header line is ever read.
\<close>

theorem read_vcf_file_conforming_header_raises:
  assumes "\<forall>c \<in> set comments. CHR ''#'' \<in> set c \<and> \<not> str_contains ''#CHROM'' c"
    and "str_contains ''#CHROM'' header"
    and "take 5 (split TAB (strip header)) = VCF_REQUIRED_COLS"
  shows "read_vcf_file (comments @ header # rows) =
           Inl (ValueError ''invalid literal for int()'')"
proof -
  have "header_loop (comments @ header # rows) 0 = Inr (length comments)"
    using header_loop_comments[OF assms, of rows 0] by simp
  then show ?thesis
    using rows_loop_header[OF assms(3)] by (simp add: read_vcf_file_def)
qed

theorem read_vcf_file_conforming_header_raises_witness:
  "read_vcf_file example_vcf = Inl (ValueError ''invalid literal for int()'') \<and>
   rows_loop (tl example_vcf) [] = Inr [(''chr1'', 100, ''rs1'', ''A'', ''T'')]"
proof -
  have h1: "\<forall>c \<in> set ([] :: string list). CHR ''#'' \<in> set c \<and> \<not> str_contains ''#CHROM'' c"
    by simp
  have h2: "str_contains ''#CHROM'' (hd example_vcf)" by code_simp
  have h3: "take 5 (split TAB (strip (hd example_vcf))) = VCF_REQUIRED_COLS" by code_simp
  have e: "example_vcf = [] @ hd example_vcf # tl example_vcf"
    by (simp add: example_vcf_def)
  have r: "rows_loop (tl example_vcf) [] = Inr [(''chr1'', 100, ''rs1'', ''A'', ''T'')]"
    by code_simp
  from read_vcf_file_conforming_header_raises[OF h1 h2 h3, of "tl example_vcf"] e r
  show ?thesis by simp
qed

section \<open>Properties of variant effect prediction\<close>

lemma split_not_Nil: "split sep s \<noteq> []"
  by (induction s) (simp_all add: Let_def)

lemma process_alts_error:
  "process_alts self g all_alts ref chrom start end' reference_sequence = Inl e \<Longrightarrow>
   e = AssertionError"
  by (induction all_alts arbitrary: e) (auto simp: Let_def split: if_splits sum.splits)

lemma initialize_reporters_fresh:
  "r \<in> set (initialize_reporters save_data) \<Longrightarrow> main_rows r = [] \<and> NA_rows r = []"
  by (auto simp: initialize_reporters_def split: if_splits)

lemma routed_twice:
  "handle_ref_alt_predictions ids (map (\<lambda>r. handle_NA r v) (initialize_reporters save_data)) =
     map (\<lambda>r. r\<lparr> main_rows := ids, NA_rows := [v] \<rparr>) (initialize_reporters save_data)"
  by (auto simp: handle_ref_alt_predictions_def reporter_handle_batch_predictions_def
      handle_NA_def dest: initialize_reporters_fresh)

text \<open>
  Claim C2 (the failing inputs). A variant whose window is out of bounds is handed to
  \<open>handle_NA\<close>, but the loop body then goes on instead of skipping it. Whatever the
  sequence provider returns for the window, a run over this one variant either ends with
  the \<open>AssertionError\<close> of line 431 or line 384, or gives every reporter the variant both
  as an NA row and as one main row per alternate allele. It never ends with the variant
  in the NA output alone.
\<close>

theorem out_of_bounds_variant_is_not_skipped:
  assumes "\<not> sequence_in_bounds g chrom (pos - int (start_radius self))
               (pos + int (end_radius self))"
  shows "score_variants self g [(chrom, pos, name, ref, alt)] save_data = Inl AssertionError \<or>
         score_variants self g [(chrom, pos, name, ref, alt)] save_data =
           Inr (map (\<lambda>r. r\<lparr> main_rows :=
                              map (\<lambda>a. (chrom, pos, name, ref, a)) (split (CHR '','') alt),
                            NA_rows := [(chrom, pos, name, ref, alt)] \<rparr>)
                  (initialize_reporters save_data))"
proof -
  let ?start = "pos - int (start_radius self)" and ?end = "pos + int (end_radius self)"
  let ?rs = "get_sequence_from_coords g chrom ?start ?end"
  let ?alts = "split (CHR '','') alt"
  let ?v = "(chrom, pos, name, ref, alt)"
  let ?ids = "map (\<lambda>a. (chrom, pos, name, ref, a)) ?alts"
  show ?thesis
  proof (cases "length ?rs = sequence_length self")
    case False
    then have "score_variants self g [?v] save_data = Inl AssertionError"
      by (simp add: score_variants_def Let_def)
    then show ?thesis by simp
  next
    case len: True
    show ?thesis
    proof (cases "process_alts self g ?alts ref chrom ?start ?end ?rs")
      case (Inl e)
      then have "e = AssertionError" by (rule process_alts_error)
      with Inl len have "score_variants self g [?v] save_data = Inl AssertionError"
        by (simp add: score_variants_def Let_def)
      then show ?thesis by simp
    next
      case (Inr alt_encodings)
      have ne: "?alts \<noteq> []" by (rule split_not_Nil)
      have "score_variants self g [?v] save_data =
          Inr (handle_ref_alt_predictions ?ids
                 (map (\<lambda>r. handle_NA r ?v) (initialize_reporters save_data)))"
        using Inr len assms ne by (simp add: score_variants_def Let_def)
      then show ?thesis unfolding routed_twice by simp
    qed
  qed
qed

text \<open>
  With a provider that has no bases outside its chromosome the run over the variant at
  position 100 of a chromosome of eight bases is ended by the assertion, from the variant
  file on; a variant in bounds on the same chromosome gives one main row.
\<close>

theorem out_of_bounds_variant_is_not_skipped_witness:
  "read_vcf_file vcf_out_of_bounds = Inr [(''chr1'', 100, ''rs1'', ''A'', ''T'')] \<and>
   sequence_in_bounds genome8 ''chr1'' 98 102 = False \<and>
   score_variants example_engine genome8 [(''chr1'', 100, ''rs1'', ''A'', ''T'')]
     [''predictions''] \<noteq>
     Inr [\<lparr> kind = WriteRefAltHandler, main_rows = [],
            NA_rows = [(''chr1'', 100, ''rs1'', ''A'', ''T'')] \<rparr>] \<and>
   variant_effect_prediction example_engine genome8 vcf_out_of_bounds [''predictions''] =
     Inl AssertionError \<and>
   variant_effect_prediction example_engine genome8 vcf_in_bounds [''predictions''] =
     Inr [\<lparr> kind = WriteRefAltHandler,
            main_rows = [(''chr1'', 3, ''rs2'', ''T'', ''C'')], NA_rows = [] \<rparr>]"
proof -
  have h: "\<not> sequence_in_bounds genome8 ''chr1'' (100 - int (start_radius example_engine))
               (100 + int (end_radius example_engine))"
    by code_simp
  have i: "initialize_reporters [''predictions''] =
      [\<lparr> kind = WriteRefAltHandler, main_rows = [], NA_rows = [] \<rparr>]"
    by code_simp
  from out_of_bounds_variant_is_not_skipped[OF h, of "''rs1''" "''A''" "''T''" "[''predictions'']"]
  have "score_variants example_engine genome8 [(''chr1'', 100, ''rs1'', ''A'', ''T'')]
     [''predictions''] \<noteq>
     Inr [\<lparr> kind = WriteRefAltHandler, main_rows = [],
            NA_rows = [(''chr1'', 100, ''rs1'', ''A'', ''T'')] \<rparr>]"
    unfolding i by auto
  moreover have "read_vcf_file vcf_out_of_bounds = Inr [(''chr1'', 100, ''rs1'', ''A'', ''T'')]"
    by code_simp
  moreover have "sequence_in_bounds genome8 ''chr1'' 98 102 = False"
    by code_simp
  moreover have
    "variant_effect_prediction example_engine genome8 vcf_out_of_bounds [''predictions''] =
     Inl AssertionError"
    by code_simp
  moreover have
    "variant_effect_prediction example_engine genome8 vcf_in_bounds [''predictions''] =
     Inr [\<lparr> kind = WriteRefAltHandler,
            main_rows = [(''chr1'', 3, ''rs2'', ''T'', ''C'')], NA_rows = [] \<rparr>]"
    by code_simp
  ultimately show ?thesis by blast
qed

text \<open>
  Claim C3 (evaluation at a failing input). On a chromosome of four bases the window of
  the deletion \<open>GT > G\<close> at position 2 is in bounds, so the variant is not NA-routed. The
  spliced sequence has three bases; the range after the window is out of bounds, and so
  is the range before it, which the source reads without a check. The sequence stays
  short and the \<open>assert\<close> of line 384 fails.
\<close>

theorem process_alts_deletion_fails_assertion:
  "read_vcf_file vcf_deletion = Inr [(''chr1'', 2, ''del1'', ''GT'', ''G'')] \<and>
   sequence_in_bounds genome4 ''chr1'' 0 4 = True \<and>
   get_sequence_from_coords genome4 ''chr1'' 0 4 = ''ACGT'' \<and>
   alt_sequence_of example_engine genome4 ''G'' ''GT'' ''chr1'' 0 4 ''ACGT'' = ''ACG'' \<and>
   process_alts example_engine genome4 [''G''] ''GT'' ''chr1'' 0 4 ''ACGT'' =
     Inl AssertionError \<and>
   variant_effect_prediction example_engine genome4 vcf_deletion [''predictions''] =
     Inl AssertionError"
  by code_simp

lemma alt_sequence_of_cases:
  "alt_sequence_of self g a ref chrom start end' reference_sequence =
     (let alt_sequence = take (start_radius self) reference_sequence @ a @
                 drop (start_radius self + length ref) reference_sequence;
          n = length alt_sequence; len = sequence_length self
      in if n > len then take len alt_sequence
         else if n < len then
           (if \<not> sequence_in_bounds g chrom end' (end' + int len - int n)
            then get_sequence_from_coords g chrom (start - int len + int n) start @ alt_sequence
            else alt_sequence @ get_sequence_from_coords g chrom end' (end' + int len - int n))
         else alt_sequence)"
  by (simp add: alt_sequence_of_def Let_def)

text \<open>
  What does hold of \<open>_process_alts\<close>: when the provider returns \<open>e - s\<close> bases for every
  in-bounds range from \<open>s\<close> to \<open>e\<close>, and for a spliced sequence that is too short the
  range after the window or the range before it is in bounds, the sequence built for the
  allele has exactly \<open>sequence_length\<close> bases.
\<close>

lemma alt_sequence_of_length_when_padding_in_bounds:
  assumes faithful: "\<And>c s e. sequence_in_bounds g c s e \<Longrightarrow> s \<le> e \<Longrightarrow>
             length (get_sequence_from_coords g c s e) = nat (e - s)"
    and pad: "\<And>n. n = length (take (start_radius self) reference_sequence @ a @
                 drop (start_radius self + length ref) reference_sequence) \<Longrightarrow>
             n < sequence_length self \<Longrightarrow>
             sequence_in_bounds g chrom end' (end' + int (sequence_length self) - int n) \<or>
             sequence_in_bounds g chrom (start - int (sequence_length self) + int n) start"
  shows "length (alt_sequence_of self g a ref chrom start end' reference_sequence) =
           sequence_length self"
proof -
  define alt where "alt = take (start_radius self) reference_sequence @ a @
                 drop (start_radius self + length ref) reference_sequence"
  define n where "n = length alt"
  define len where "len = sequence_length self"
  have eq: "alt_sequence_of self g a ref chrom start end' reference_sequence =
     (if n > len then take len alt
      else if n < len then
        (if \<not> sequence_in_bounds g chrom end' (end' + int len - int n)
         then get_sequence_from_coords g chrom (start - int len + int n) start @ alt
         else alt @ get_sequence_from_coords g chrom end' (end' + int len - int n))
      else alt)"
    unfolding alt_sequence_of_cases alt_def n_def len_def Let_def ..
  consider (long) "n > len" | (short) "n < len" | (same) "n = len" by linarith
  then have "length (alt_sequence_of self g a ref chrom start end' reference_sequence) = len"
  proof cases
    case long
    then show ?thesis unfolding eq by (simp add: n_def)
  next
    case same
    then show ?thesis unfolding eq by (simp add: n_def)
  next
    case short
    show ?thesis
    proof (cases "sequence_in_bounds g chrom end' (end' + int len - int n)")
      case True
      have "length (get_sequence_from_coords g chrom end' (end' + int len - int n)) =
          nat (end' + int len - int n - end')"
        using faithful[OF True] short by simp
      also have "\<dots> = len - n" by simp
      finally show ?thesis unfolding eq using short True n_def by simp
    next
      case False
      have "sequence_in_bounds g chrom end' (end' + int len - int n) \<or>
          sequence_in_bounds g chrom (start - int len + int n) start"
        using pad[of n] short unfolding n_def alt_def len_def by simp
      with False have b: "sequence_in_bounds g chrom (start - int len + int n) start"
        by simp
      have "length (get_sequence_from_coords g chrom (start - int len + int n) start) =
          nat (start - (start - int len + int n))"
        using faithful[OF b] short by simp
      also have "\<dots> = len - n" by simp
      finally show ?thesis unfolding eq using short False n_def by simp
    qed
  qed
  then show ?thesis by (simp add: len_def)
qed

section \<open>Properties of the training controller\<close>

lemma report_stats_frame:
  assumes "report_stats P s loss (self, ml, sch) = (self', ml', sch')"
  shows "trained_steps self' = trained_steps self"
    and "nth_step_report_stats self' = nth_step_report_stats self"
    and "nth_step_save_checkpoint self' = nth_step_save_checkpoint self"
    and "saved_steps self' = saved_steps self @ [s]"
  using assms
  by (auto simp: report_stats_def Let_def saved_steps_def current_checkpoint_def
      split: prod.splits if_splits)

lemma training_loop_runs:
  fixes P :: "('m, 'o, 'l::linorder, 's) collaborators"
  assumes "nth_step_report_stats self \<noteq> 0" and "nth_step_save_checkpoint self \<noteq> 0"
  shows "\<exists>self' ml' sch'.
           training_loop P steps (self, ml, sch) = Inr (self', ml', sch') \<and>
           trained_steps self' = trained_steps self @ steps \<and>
           saved_steps self' = saved_steps self @
             concat (map (\<lambda>s. (if s mod nth_step_report_stats self = 0 then [s] else []) @
                               (if s mod nth_step_save_checkpoint self = 0 then [s] else []))
                      steps)"
  using assms
proof (induction steps arbitrary: self ml sch)
  case Nil
  then show ?case by simp
next
  case (Cons s steps)
  let ?r = "nth_step_report_stats self" and ?k = "nth_step_save_checkpoint self"
  obtain m opt' train_loss where t: "train P (model self) (optimizer self) = (m, opt', train_loss)"
    by (cases "train P (model self) (optimizer self)")
  let ?sa = "self\<lparr> model := m, optimizer := opt',
                           losses_training := losses_training self @ [train_loss],
                           trained_steps := trained_steps self @ [s] \<rparr>"
  have "\<exists>selfb mlb schb.
      (if s mod ?r = 0 then report_stats P s train_loss (?sa, ml, sch) else (?sa, ml, sch)) =
        (selfb, mlb, schb) \<and>
      trained_steps selfb = trained_steps self @ [s] \<and>
      nth_step_report_stats selfb = ?r \<and> nth_step_save_checkpoint selfb = ?k \<and>
      saved_steps selfb = saved_steps self @ (if s mod ?r = 0 then [s] else [])"
  proof (cases "s mod ?r = 0")
    case True
    obtain selfb mlb schb where
      rs: "report_stats P s train_loss (?sa, ml, sch) = (selfb, mlb, schb)"
      by (cases "report_stats P s train_loss (?sa, ml, sch)")
    from report_stats_frame[OF rs] True rs show ?thesis
      by (simp add: saved_steps_def)
  next
    case False
    then show ?thesis by (simp add: saved_steps_def)
  qed
  then obtain selfb mlb schb where
    xb: "(if s mod ?r = 0 then report_stats P s train_loss (?sa, ml, sch) else (?sa, ml, sch)) =
        (selfb, mlb, schb)" and
    b: "trained_steps selfb = trained_steps self @ [s]"
      "nth_step_report_stats selfb = ?r" "nth_step_save_checkpoint selfb = ?k"
      "saved_steps selfb = saved_steps self @ (if s mod ?r = 0 then [s] else [])"
    by blast
  let ?sc = "if s mod ?k = 0
             then selfb\<lparr> saved := saved selfb @ [(current_checkpoint selfb s mlb, False)] \<rparr>
             else selfb"
  have c: "trained_steps ?sc = trained_steps self @ [s]"
    "nth_step_report_stats ?sc = ?r" "nth_step_save_checkpoint ?sc = ?k"
    "saved_steps ?sc = saved_steps self @ (if s mod ?r = 0 then [s] else []) @
       (if s mod ?k = 0 then [s] else [])"
    using b by (simp_all add: saved_steps_def current_checkpoint_def)
  have "training_loop P (s # steps) (self, ml, sch) =
      (case (if s mod ?r = 0 then report_stats P s train_loss (?sa, ml, sch) else (?sa, ml, sch))
       of (selfb, mlb, schb) \<Rightarrow>
          if nth_step_save_checkpoint selfb = 0 then Inl ZeroDivisionError
          else training_loop P steps
                 (if s mod nth_step_save_checkpoint selfb = 0
                  then selfb\<lparr> saved := saved selfb @
                         [(current_checkpoint selfb s mlb, False)] \<rparr>
                  else selfb, mlb, schb))"
    using Cons.prems(1) by (simp add: t Let_def del: training_loop.simps(1) split del: if_split)
  also have "\<dots> = training_loop P steps (?sc, mlb, schb)"
    unfolding xb using b(3) Cons.prems(2) by (simp split del: if_split)
  finally have step: "training_loop P (s # steps) (self, ml, sch) =
      training_loop P steps (?sc, mlb, schb)" .
  have ra: "nth_step_report_stats ?sc \<noteq> 0" and ka: "nth_step_save_checkpoint ?sc \<noteq> 0"
    using c(2,3) Cons.prems by simp_all
  from Cons.IH[OF ra ka, of mlb schb] obtain self' ml' sch' where
    r: "training_loop P steps (?sc, mlb, schb) = Inr (self', ml', sch')"
    "trained_steps self' = trained_steps ?sc @ steps"
    "saved_steps self' = saved_steps ?sc @
             concat (map (\<lambda>s. (if s mod nth_step_report_stats ?sc = 0 then [s] else []) @
                               (if s mod nth_step_save_checkpoint ?sc = 0 then [s] else []))
                      steps)"
    by blast
  have "training_loop P (s # steps) (self, ml, sch) = Inr (self', ml', sch')"
    using step r(1) by simp
  moreover have "trained_steps self' = trained_steps self @ s # steps"
    using r(2) c(1) by simp
  moreover have "saved_steps self' = saved_steps self @
             concat (map (\<lambda>s. (if s mod ?r = 0 then [s] else []) @
                               (if s mod ?k = 0 then [s] else []))
                      (s # steps))"
    unfolding r(3) c(2) c(3) c(4) by simp
  ultimately show ?case by blast
qed

text \<open>
  Claim C1 (the failing inputs). A controller built to resume from a checkpoint takes the
  step counter, the least loss and the optimizer's state from it, as claimed. But its
  loop starts at the checkpoint's own step \<open>S\<close>, not at \<open>S + 1\<close>: for a report interval
  other than 0 and \<open>S < max_steps\<close> the run trains at the steps \<open>S, S + 1, ...\<close>, and it
  writes a checkpoint for step \<open>S\<close> again whenever \<open>S\<close> is a multiple of the report or of
  the checkpoint interval. Since the checkpoint of step \<open>S\<close> was written after the
  training of step \<open>S\<close>, that step is run twice.
\<close>

theorem resumed_training_repeats_checkpoint_step:
  fixes P :: "('m, 'o, 'l::{linorder,order_top}, 's) collaborators"
    and ck :: "('m, 'o, 'l) checkpoint"
    and m :: 'm and name :: string and opt :: 'o
    and save_checkpoint_every_n_steps :: "int option"
  assumes "report_stats_every_n_steps \<noteq> 0" and "step ck < max_steps'"
  defines "self \<equiv> ModelController m name opt max_steps' report_stats_every_n_steps
                      save_checkpoint_every_n_steps (Some ck)"
  shows "start_step self = step ck \<and> controller_min_loss self = min_loss ck \<and>
         optimizer self = optimizer_state ck \<and>
         (\<exists>self'. train_and_validate P self = Inr self' \<and>
            trained_steps self' = step ck # [step ck + 1..max_steps' - 1] \<and>
            saved_steps self' =
              concat (map (\<lambda>s. (if s mod nth_step_report_stats self = 0 then [s] else []) @
                               (if s mod nth_step_save_checkpoint self = 0 then [s] else []))
                       (step ck # [step ck + 1..max_steps' - 1])))"
proof -
  have r: "nth_step_report_stats self \<noteq> 0" and k: "nth_step_save_checkpoint self \<noteq> 0"
    using assms(1) by (auto simp: self_def ModelController_def split: option.splits)
  have range: "[start_step self..max_steps self - 1] = step ck # [step ck + 1..max_steps' - 1]"
    using assms(2) by (simp add: self_def ModelController_def upto_rec1)
  have init: "trained_steps self = []" "saved_steps self = []"
    by (simp_all add: self_def ModelController_def saved_steps_def)
  from training_loop_runs[OF r k, of P "[start_step self..max_steps self - 1]"
      "controller_min_loss self" "new_scheduler P"]
  obtain self' ml' sch' where
    "training_loop P [start_step self..max_steps self - 1]
       (self, controller_min_loss self, new_scheduler P) = Inr (self', ml', sch')"
    "trained_steps self' = trained_steps self @ [start_step self..max_steps self - 1]"
    "saved_steps self' = saved_steps self @
       concat (map (\<lambda>s. (if s mod nth_step_report_stats self = 0 then [s] else []) @
                         (if s mod nth_step_save_checkpoint self = 0 then [s] else []))
                [start_step self..max_steps self - 1])"
    by blast
  then have "train_and_validate P self = Inr self' \<and>
      trained_steps self' = step ck # [step ck + 1..max_steps' - 1] \<and>
      saved_steps self' =
        concat (map (\<lambda>s. (if s mod nth_step_report_stats self = 0 then [s] else []) @
                         (if s mod nth_step_save_checkpoint self = 0 then [s] else []))
                 (step ck # [step ck + 1..max_steps' - 1]))"
    unfolding range init by (simp add: train_and_validate_def range)
  moreover have "start_step self = step ck" "controller_min_loss self = min_loss ck"
    "optimizer self = optimizer_state ck"
    by (simp_all add: self_def ModelController_def)
  ultimately show ?thesis by blast
qed

theorem resumed_training_repeats_checkpoint_step_witness:
  "(\<exists>run. train_and_validate counting (ModelController 0 ''Net'' 0 4 2 None None) = Inr run \<and>
      trained_steps run = [0, 1, 2, 3] \<and> model run = 4 \<and>
      fst (saved run ! 2) = checkpoint_at_2) \<and>
   (\<exists>resumed.
      train_and_validate counting
        (ModelController (state_dict checkpoint_at_2) ''Net'' 0 4 2 None (Some checkpoint_at_2)) =
        Inr resumed \<and>
      trained_steps resumed = [2, 3] \<and> saved_steps resumed = [2, 2] \<and> model resumed = 5)"
proof -
  have h1: "(2::int) \<noteq> 0" by simp
  have h2: "step checkpoint_at_2 < 4" by (simp add: checkpoint_at_2_def)
  from resumed_training_repeats_checkpoint_step[OF h1 h2, of "state_dict checkpoint_at_2"
      "''Net''" 0 None counting]
  obtain resumed where
    a: "train_and_validate counting
        (ModelController (state_dict checkpoint_at_2) ''Net'' 0 4 2 None (Some checkpoint_at_2)) =
        Inr resumed"
    by blast
  have c: "train_and_validate counting
        (ModelController (state_dict checkpoint_at_2) ''Net'' 0 4 2 None (Some checkpoint_at_2)) =
      Inr \<lparr> model = 5, model_class_name = ''Net'', optimizer = 5, max_steps = 4,
            nth_step_report_stats = 2, nth_step_save_checkpoint = 2,
            start_step = 2, controller_min_loss = 1,
            losses_training = [1, 1, 1], losses_validation = [1],
            trained_steps = [2, 3],
            saved =
              [(\<lparr>step = 2, arch = ''Net'', state_dict = 4, min_loss = 1,
                   optimizer_state = 4\<rparr>, False),
               (\<lparr>step = 2, arch = ''Net'', state_dict = 4, min_loss = 1,
                   optimizer_state = 4\<rparr>, False)] \<rparr>"
    by code_simp
  have d: "train_and_validate counting (ModelController 0 ''Net'' 0 4 2 None None) =
      Inr \<lparr> model = 4, model_class_name = ''Net'', optimizer = 4, max_steps = 4,
            nth_step_report_stats = 2, nth_step_save_checkpoint = 2,
            start_step = 0, controller_min_loss = \<infinity>,
            losses_training = [1, 1, 1, 1, 1, 1], losses_validation = [1, 1],
            trained_steps = [0, 1, 2, 3],
            saved =
              [(\<lparr>step = 0, arch = ''Net'', state_dict = 1, min_loss = 1,
                   optimizer_state = 1\<rparr>, True),
               (\<lparr>step = 0, arch = ''Net'', state_dict = 1, min_loss = 1,
                   optimizer_state = 1\<rparr>, False),
               (\<lparr>step = 2, arch = ''Net'', state_dict = 3, min_loss = 1,
                   optimizer_state = 3\<rparr>, False),
               (\<lparr>step = 2, arch = ''Net'', state_dict = 3, min_loss = 1,
                   optimizer_state = 3\<rparr>, False)] \<rparr>"
    by code_simp
  have "\<exists>run. train_and_validate counting (ModelController 0 ''Net'' 0 4 2 None None) = Inr run \<and>
      trained_steps run = [0, 1, 2, 3] \<and> model run = 4 \<and>
      fst (saved run ! 2) = checkpoint_at_2"
    unfolding d by (simp add: checkpoint_at_2_def)
  moreover have "trained_steps resumed = [2, 3] \<and> saved_steps resumed = [2, 2] \<and>
      model resumed = 5"
  proof -
    from a c have "Inr resumed = (Inr \<lparr> model = 5, model_class_name = ''Net'', optimizer = 5,
            max_steps = 4, nth_step_report_stats = 2, nth_step_save_checkpoint = 2,
            start_step = 2, controller_min_loss = 1,
            losses_training = [1, 1, 1], losses_validation = [1],
            trained_steps = [2, 3],
            saved =
              [(\<lparr>step = 2, arch = ''Net'', state_dict = 4, min_loss = 1,
                   optimizer_state = 4\<rparr>, False),
               (\<lparr>step = 2, arch = ''Net'', state_dict = 4, min_loss = 1,
                   optimizer_state = 4\<rparr>, False)] \<rparr>
          :: py_error + (nat, nat, enat) controller)"
      by (rule trans[OF sym])
    then have e: "resumed = \<lparr> model = 5, model_class_name = ''Net'', optimizer = 5,
            max_steps = 4, nth_step_report_stats = 2, nth_step_save_checkpoint = 2,
            start_step = 2, controller_min_loss = 1,
            losses_training = [1, 1, 1], losses_validation = [1],
            trained_steps = [2, 3],
            saved =
              [(\<lparr>step = 2, arch = ''Net'', state_dict = 4, min_loss = 1,
                   optimizer_state = 4\<rparr>, False),
               (\<lparr>step = 2, arch = ''Net'', state_dict = 4, min_loss = 1,
                   optimizer_state = 4\<rparr>, False)] \<rparr>"
      by (simp only: sum.inject)
    show ?thesis unfolding e by (simp add: saved_steps_def)
  qed
  ultimately show ?thesis using a by blast
qed

end
